theory Spec2Isabelle
  imports Complex_Main "HOL-Library.Monad_Syntax"
begin

section \<open>Data model of tetrise.h\<close>

text \<open>
  The tetrahedra construction mode is a \<^verbatim>\<open>short\<close> compared against four macro
  constants; any other value falls through every branch.
\<close>

definition TM_FACE :: int where "TM_FACE = 0"
definition TM_EDGE :: int where "TM_EDGE = 1"
definition TM_VERTEX :: int where "TM_VERTEX = 2"
definition TM_VFACE :: int where "TM_VFACE = 10"

text \<open>
  Class \<^verbatim>\<open>edge\<close> holds two vectors that its constructors always size to two entries:
  the end points and the adjacent faces. Class \<^verbatim>\<open>vertex\<close> holds a point index and
  the fan \<^verbatim>\<open>connectedTriangles\<close>.
\<close>

record edge =
  vertices :: "int \<times> int"
  faces :: "int \<times> int"

record vertex =
  index :: int
  connectedTriangles :: "int list"

text \<open>
  \<^verbatim>\<open>std::vector::operator[]\<close> outside the vector is undefined behaviour; the model
  makes such a read or write the value \<open>None\<close>. Reads whose index the loop bound
  keeps inside the vector are written with \<open>!\<close>.
\<close>

definition elem_at :: "'a list \<Rightarrow> int \<Rightarrow> 'a option" where
  "elem_at xs i = (if 0 \<le> i \<and> i < int (length xs) then Some (xs ! nat i) else None)"

fun for_each :: "('a \<Rightarrow> 's \<Rightarrow> 's option) \<Rightarrow> 'a list \<Rightarrow> 's \<Rightarrow> 's option" where
  "for_each body [] s = Some s"
| "for_each body (x # xs) s = (case body x s of None \<Rightarrow> None | Some s' \<Rightarrow> for_each body xs s')"

section \<open>makeEdgeList\<close>

text \<open>
  The \<^verbatim>\<open>std::map\<close> from canonical pairs to the first face seen is a partial map.
  The function returns the size of the edge list it has filled; the model returns the list.
\<close>

type_synonym edge_map = "int \<times> int \<rightharpoonup> int"

definition canon :: "int \<Rightarrow> int \<Rightarrow> int \<times> int" where
  "canon s t = (if s > t then (t, s) else (s, t))"

definition edgeStep :: "int list \<Rightarrow> nat \<Rightarrow> nat \<Rightarrow> edge_map \<times> edge list \<Rightarrow> edge_map \<times> edge list" where
  "edgeStep faceList i j st =
     (let pa = canon (faceList ! (3 * i + j)) (faceList ! (3 * i + ((j + 1) mod 3)))
      in case fst st pa of
           None \<Rightarrow> ((fst st)(pa \<mapsto> int i), snd st)
         | Some f \<Rightarrow> (fst st, snd st @ [\<lparr>vertices = pa, faces = (f, int i)\<rparr>]))"

definition makeEdgeList :: "int list \<Rightarrow> edge list" where
  "makeEdgeList faceList =
     snd (fold (\<lambda>i. fold (edgeStep faceList i) [0..<3]) [0..<length faceList div 3] (Map.empty, []))"

section \<open>makeTetList\<close>

text \<open>
  \<^verbatim>\<open>numPts\<close>, the apex numbers and the returned \<^verbatim>\<open>dim\<close> are 32-bit \<^verbatim>\<open>int\<close> values.
  A sum that leaves the range from \<open>-2147483648\<close> to \<open>2147483647\<close> wraps around
  (two's complement), which is what the compiled program delivers. Loop counters and
  vector sizes are natural numbers: the vectors are taken to hold fewer than \<open>2147483648\<close>
  entries, so that a counter or a size never wraps.
\<close>

definition wrap32 :: "int \<Rightarrow> int" where
  "wrap32 x = (x + 2147483648) mod 4294967296 - 2147483648"

definition add32 :: "int \<Rightarrow> int \<Rightarrow> int" where
  "add32 a b = wrap32 (a + b)"

text \<open>
  The \<^verbatim>\<open>while\<close> loop of the per-edge branch scans the face list from \<open>3 * f + k\<close>
  for the first entry that is not an end point of the edge. It stops with \<open>None\<close>
  when it leaves the vector.
\<close>

function findOpposite :: "int list \<Rightarrow> int \<Rightarrow> edge \<Rightarrow> nat \<Rightarrow> nat option" where
  "findOpposite faceList f e k =
     (if 0 \<le> 3 * f + int k \<and> 3 * f + int k < int (length faceList) then
        (if faceList ! nat (3 * f + int k) = fst (vertices e)
            \<or> faceList ! nat (3 * f + int k) = snd (vertices e)
         then findOpposite faceList f e (Suc k) else Some k)
      else None)"
  by pat_completeness auto
termination
  by (relation "measure (\<lambda>(faceList, f, e, k). nat (int (length faceList) - (3 * f + int k)))") auto

declare findOpposite.simps [simp del]

definition edgeTet :: "int \<Rightarrow> int list \<Rightarrow> edge list \<Rightarrow> nat \<Rightarrow> nat \<Rightarrow> int list \<Rightarrow> int list option" where
  "edgeTet numPts faceList edgeList i j tetList =
     (let e = edgeList ! i; f = (if j = 0 then fst (faces e) else snd (faces e)) in
      do {
        k \<leftarrow> findOpposite faceList f e 0;
        if k < 3 then do {
          a \<leftarrow> elem_at faceList (3 * f + int ((k + 1) mod 3));
          b \<leftarrow> elem_at faceList (3 * f + int ((k + 2) mod 3));
          c \<leftarrow> elem_at faceList (3 * f + int k);
          Some (tetList[8 * i + 4 * j := a, 8 * i + 4 * j + 1 := b,
                        8 * i + 4 * j + 2 := c, 8 * i + 4 * j + 3 := add32 (int i) numPts])
        } else None
      })"

definition faceTet :: "int \<Rightarrow> int list \<Rightarrow> nat \<Rightarrow> int list \<Rightarrow> int list" where
  "faceTet numPts faceList i tetList =
     tetList[4 * i := faceList ! (3 * i), 4 * i + 1 := faceList ! (3 * i + 1),
             4 * i + 2 := faceList ! (3 * i + 2), 4 * i + 3 := add32 (int i) numPts]"

definition vertexTet :: "int \<Rightarrow> vertex list \<Rightarrow> nat \<Rightarrow> nat \<Rightarrow> int list \<Rightarrow> int list" where
  "vertexTet numPts vertexList i j tetList =
     tetList @ [index (vertexList ! i), connectedTriangles (vertexList ! i) ! (2 * j),
                connectedTriangles (vertexList ! i) ! (2 * j + 1), add32 numPts (int i)]"

definition vfaceTet :: "int \<Rightarrow> vertex list \<Rightarrow> nat \<Rightarrow> nat \<Rightarrow> int list \<times> int \<Rightarrow> int list \<times> int" where
  "vfaceTet numPts vertexList i j st =
     (fst st @ [index (vertexList ! i), connectedTriangles (vertexList ! i) ! (2 * j),
                connectedTriangles (vertexList ! i) ! (2 * j + 1), add32 numPts (snd st)],
      snd st + 1)"

text \<open>The result is the new content of \<^verbatim>\<open>tetList\<close> and the returned \<^verbatim>\<open>dim\<close>.\<close>

definition makeTetList ::
  "int \<Rightarrow> int \<Rightarrow> int list \<Rightarrow> edge list \<Rightarrow> vertex list \<Rightarrow> (int list \<times> int) option" where
  "makeTetList tetMode numPts faceList edgeList vertexList =
     (if tetMode = TM_FACE then
        (let numTet = length faceList div 3 in
         Some (fold (faceTet numPts faceList) [0..<numTet] (replicate (4 * numTet) 0),
               add32 (int numTet) numPts))
      else if tetMode = TM_EDGE then
        (let numTet = 2 * length edgeList in
         do {
           tetList \<leftarrow> for_each (\<lambda>i. for_each (edgeTet numPts faceList edgeList i) [0..<2])
                        [0..<length edgeList] (replicate (4 * numTet) 0);
           Some (tetList, add32 numPts (int (length edgeList)))
         })
      else if tetMode = TM_VERTEX then
        Some (fold (\<lambda>i. fold (vertexTet numPts vertexList i)
                            [0..<length (connectedTriangles (vertexList ! i)) div 2])
                [0..<length vertexList] [],
              add32 numPts (int (length vertexList)))
      else if tetMode = TM_VFACE then
        (let tetList = fst (fold (\<lambda>i. fold (vfaceTet numPts vertexList i)
                            [0..<length (connectedTriangles (vertexList ! i)) div 2])
                [0..<length vertexList] ([], 0))
         in Some (tetList, add32 numPts (int (length tetList div 4))))
      else Some ([], 0))"


subsection \<open>Well-formed input and ghost counts\<close>

text \<open>
  An edge is usable by the per-edge branch when both of its faces are triangles of the
  face list and each of them has a corner that is not an end point of the edge.
\<close>

definition edgeOK :: "int list \<Rightarrow> edge \<Rightarrow> bool" where
  "edgeOK faceList e =
     (\<forall>f \<in> {fst (faces e), snd (faces e)}.
        0 \<le> f \<and> 3 * f + 2 < int (length faceList) \<and>
        (\<exists>k \<in> {0, 1, 2}. faceList ! (3 * nat f + k) \<noteq> fst (vertices e)
                        \<and> faceList ! (3 * nat f + k) \<noteq> snd (vertices e)))"

definition wellFormed :: "int \<Rightarrow> int list \<Rightarrow> edge list \<Rightarrow> bool" where
  "wellFormed tetMode faceList edgeList =
     (tetMode = TM_EDGE \<longrightarrow> (\<forall>e \<in> set edgeList. edgeOK faceList e))"

definition wedgeCount :: "vertex list \<Rightarrow> nat" where
  "wedgeCount vertexList = sum_list (map (\<lambda>v. length (connectedTriangles v) div 2) vertexList)"

text \<open>The number of ghost points the specification gives for each mode.\<close>

definition ghostCount :: "int \<Rightarrow> int list \<Rightarrow> edge list \<Rightarrow> vertex list \<Rightarrow> nat" where
  "ghostCount tetMode faceList edgeList vertexList =
     (if tetMode = TM_FACE then length faceList div 3
      else if tetMode = TM_EDGE then length edgeList
      else if tetMode = TM_VERTEX then length vertexList
      else wedgeCount vertexList)"

text \<open>The number of tetrahedra each mode emits.\<close>

definition tetCount :: "int \<Rightarrow> int list \<Rightarrow> edge list \<Rightarrow> vertex list \<Rightarrow> nat" where
  "tetCount tetMode faceList edgeList vertexList =
     (if tetMode = TM_FACE then length faceList div 3
      else if tetMode = TM_EDGE then 2 * length edgeList
      else wedgeCount vertexList)"

text \<open>Every apex slot (position 3 of each group of four) of a tetrahedron list lies in \<open>[lo, hi)\<close>.\<close>

definition apexes_in :: "int \<Rightarrow> int \<Rightarrow> int list \<Rightarrow> bool" where
  "apexes_in lo hi tetList =
     (\<forall>q < length tetList div 4. lo \<le> tetList ! (4 * q + 3) \<and> tetList ! (4 * q + 3) < hi)"

text \<open>
  The point count of a call fits the 32-bit \<^verbatim>\<open>int\<close> of the source: \<^verbatim>\<open>numPts\<close> is a 32-bit
  value, and the sum of \<^verbatim>\<open>numPts\<close> and the ghost count of the mode does not pass
  \<open>2147483647\<close>.
\<close>

definition fits32 :: "int \<Rightarrow> int \<Rightarrow> int list \<Rightarrow> edge list \<Rightarrow> vertex list \<Rightarrow> bool" where
  "fits32 tetMode numPts faceList edgeList vertexList =
     (- 2147483648 \<le> numPts
      \<and> numPts + int (ghostCount tetMode faceList edgeList vertexList) \<le> 2147483647)"



subsection \<open>Example meshes\<close>

text \<open>A quadrilateral split into the triangles (0, 1, 2) and (2, 1, 3), with its one interior edge.\<close>

definition quadFaces :: "int list" where "quadFaces = [0, 1, 2, 2, 1, 3]"
definition quadEdges :: "edge list" where "quadEdges = [\<lparr>vertices = (1, 2), faces = (0, 1)\<rparr>]"

definition oneWedge :: vertex where
  "oneWedge = \<lparr>index = 0, connectedTriangles = [1, 2]\<rparr>"


section \<open>makeAdjacencyList\<close>

text \<open>
  \<open>push_adj\<close> appends entries to one of the lists of a vector of lists
  (\<^verbatim>\<open>push_back\<close>, or \<^verbatim>\<open>insert\<close> at the end); \<open>link\<close> is the pair of
  \<^verbatim>\<open>push_back\<close> calls that records \<open>b\<close> in list \<open>a\<close> and then \<open>a\<close> in list \<open>b\<close>.
\<close>

definition push_adj :: "int list list \<Rightarrow> int \<Rightarrow> int list \<Rightarrow> int list list option" where
  "push_adj adjacencyList a xs =
     (if 0 \<le> a \<and> a < int (length adjacencyList)
      then Some (adjacencyList[nat a := adjacencyList ! nat a @ xs]) else None)"

definition link :: "int list list \<Rightarrow> int \<Rightarrow> int \<Rightarrow> int list list option" where
  "link adjacencyList a b =
     do { adjacencyList \<leftarrow> push_adj adjacencyList a [b]; push_adj adjacencyList b [a] }"

definition faceAdj :: "edge list \<Rightarrow> nat \<Rightarrow> int list list \<Rightarrow> int list list option" where
  "faceAdj edgeList i adjacencyList =
     link adjacencyList (fst (faces (edgeList ! i))) (snd (faces (edgeList ! i)))"

text \<open>Per-edge mode: the state is the adjacency list and \<^verbatim>\<open>faceShareList\<close>.\<close>

definition edgeAdj ::
  "edge list \<Rightarrow> nat \<Rightarrow> int list list \<times> int list list \<Rightarrow> (int list list \<times> int list list) option" where
  "edgeAdj edgeList i st =
     (let f0 = fst (faces (edgeList ! i)); f1 = snd (faces (edgeList ! i)) in
      do {
        adjacencyList \<leftarrow> link (fst st) (2 * int i) (2 * int i + 1);
        share0 \<leftarrow> elem_at (snd st) f0;
        adjacencyList \<leftarrow> for_each (\<lambda>x adjacencyList. link adjacencyList (2 * int i) x) share0 adjacencyList;
        share1 \<leftarrow> elem_at (snd st) f1;
        adjacencyList \<leftarrow> for_each (\<lambda>x adjacencyList. link adjacencyList (2 * int i + 1) x) share1 adjacencyList;
        faceShareList \<leftarrow> push_adj (snd st) f0 [2 * int i];
        faceShareList \<leftarrow> push_adj faceShareList f1 [2 * int i + 1];
        Some (adjacencyList, faceShareList)
      })"

text \<open>
  Per-vertex and vface modes: the state is the adjacency list, the map \<^verbatim>\<open>edges\<close> from
  directed pairs to the wedge that stored them, and the running wedge index \<^verbatim>\<open>cur\<close>.
\<close>

definition shareStep ::
  "int \<times> int \<Rightarrow> int \<Rightarrow> int list list \<times> edge_map \<Rightarrow> (int list list \<times> edge_map) option" where
  "shareStep pa cur st =
     (case snd st pa of
        None \<Rightarrow> Some (fst st, (snd st)(pa \<mapsto> cur))
      | Some e \<Rightarrow> do { adjacencyList \<leftarrow> link (fst st) cur e; Some (adjacencyList, snd st) })"

definition wedgeAdj ::
  "vertex \<Rightarrow> int list \<Rightarrow> nat \<Rightarrow> int list list \<times> edge_map \<times> int
     \<Rightarrow> (int list list \<times> edge_map \<times> int) option" where
  "wedgeAdj v adj j st =
     (let cur = snd (snd st);
          s = connectedTriangles v ! (2 * j);
          t = connectedTriangles v ! (2 * j + 1) in
      do {
        adjacencyList \<leftarrow> push_adj (fst st) cur adj;
        st1 \<leftarrow> shareStep (index v, s) cur (adjacencyList, fst (snd st));
        st2 \<leftarrow> shareStep (t, index v) cur st1;
        Some (fst st2, snd st2, cur + 1)
      })"

definition vertexAdj ::
  "vertex list \<Rightarrow> nat \<Rightarrow> int list list \<times> edge_map \<times> int
     \<Rightarrow> (int list list \<times> edge_map \<times> int) option" where
  "vertexAdj vertexList i st =
     (let m = length (connectedTriangles (vertexList ! i)) div 2;
          adj = map (\<lambda>j. snd (snd st) + int j) [0..<m]
      in for_each (wedgeAdj (vertexList ! i) adj) [0..<m] st)"

definition makeAdjacencyList ::
  "int \<Rightarrow> int list \<Rightarrow> edge list \<Rightarrow> vertex list \<Rightarrow> int list list option" where
  "makeAdjacencyList tetMode tetList edgeList vertexList =
     (let adjacencyList = replicate (length tetList div 4) [] in
      if tetMode = TM_FACE then
        for_each (faceAdj edgeList) [0..<length edgeList] adjacencyList
      else if tetMode = TM_EDGE then
        map_option fst (for_each (edgeAdj edgeList) [0..<length edgeList]
                          (adjacencyList, replicate (2 * length edgeList) []))
      else if tetMode = TM_VERTEX \<or> tetMode = TM_VFACE then
        map_option fst (for_each (vertexAdj vertexList) [0..<length vertexList]
                          (adjacencyList, Map.empty, 0))
      else Some adjacencyList)"


subsection \<open>Predicates on adjacency lists\<close>

definition symmetric_adj :: "int list list \<Rightarrow> bool" where
  "symmetric_adj adjacencyList =
     (\<forall>a < length adjacencyList. \<forall>b < length adjacencyList.
        count_list (adjacencyList ! a) (int b) = count_list (adjacencyList ! b) (int a))"

definition ind :: "int \<Rightarrow> int \<Rightarrow> int \<Rightarrow> int \<Rightarrow> int \<Rightarrow> int" where
  "ind lo mid hi x y = (if lo \<le> x \<and> x < mid \<and> mid \<le> y \<and> y < hi then 1 else 0)"

definition skew :: "int list list \<Rightarrow> nat \<Rightarrow> nat \<Rightarrow> int" where
  "skew adj x y = int (count_list (adj ! x) (int y)) - int (count_list (adj ! y) (int x))"

definition fanInv :: "int list list \<Rightarrow> int \<Rightarrow> int \<Rightarrow> int \<Rightarrow> bool" where
  "fanInv adj lo mid hi =
     (\<forall>x < length adj. \<forall>y < length adj.
        skew adj x y = ind lo mid hi (int x) (int y) - ind lo mid hi (int y) (int x))"

definition dupEdges :: "edge list" where
  "dupEdges = [\<lparr>vertices = (1, 2), faces = (0, 1)\<rparr>, \<lparr>vertices = (1, 2), faces = (0, 1)\<rparr>]"

definition adjInv :: "nat \<Rightarrow> int list list \<times> edge_map \<times> int \<Rightarrow> bool" where
  "adjInv N st =
     (length (fst st) = N \<and> 0 \<le> snd (snd st) \<and> snd (snd st) \<le> int N
      \<and> (\<forall>pa v. fst (snd st) pa = Some v \<longrightarrow> 0 \<le> v \<and> v < snd (snd st))
      \<and> (\<forall>w. int w < snd (snd st) \<longrightarrow> int w \<in> set (fst st ! w)))"

definition dupFan :: "vertex list" where
  "dupFan = [\<lparr>index = 0, connectedTriangles = [1, 2, 1, 3]\<rparr>]"

text \<open>
  An open mesh: an isolated triangle followed by two triangles that share the edge
  between the points 1 and 2; the edge list and the per-edge tetrahedron list of that
  mesh for seven points.
\<close>

definition openFaces :: "int list" where
  "openFaces = [4, 5, 6, 0, 1, 2, 2, 1, 3]"

definition openEdges :: "edge list" where
  "openEdges = [\<lparr>vertices = (1, 2), faces = (1, 2)\<rparr>]"

definition openTets :: "int list" where
  "openTets = [1, 2, 0, 7, 2, 1, 3, 7]"



subsection \<open>Sides of triangles\<close>

text \<open>The three canonical end-point pairs of triangle \<open>i\<close>, in the order the loop visits them.\<close>

definition triPairs :: "int list \<Rightarrow> nat \<Rightarrow> (int \<times> int) list" where
  "triPairs faceList i =
     [canon (faceList ! (3 * i)) (faceList ! (3 * i + 1)),
      canon (faceList ! (3 * i + 1)) (faceList ! (3 * i + 2)),
      canon (faceList ! (3 * i + 2)) (faceList ! (3 * i))]"

text \<open>The triangles that have the pair as one of their sides, in increasing order.\<close>

definition trisWith :: "int list \<Rightarrow> int \<times> int \<Rightarrow> nat list" where
  "trisWith faceList pa =
     filter (\<lambda>i. pa \<in> set (triPairs faceList i)) [0..<length faceList div 3]"

definition allPairs :: "int list \<Rightarrow> (int \<times> int) list" where
  "allPairs faceList = concat (map (triPairs faceList) [0..<length faceList div 3])"

text \<open>No pair of points is a side of more than two triangles.\<close>

definition manifold :: "int list \<Rightarrow> bool" where
  "manifold faceList = (\<forall>pa \<in> set (allPairs faceList). length (trisWith faceList pa) \<le> 2)"

text \<open>Every triangle has three different corners.\<close>

definition properTris :: "int list \<Rightarrow> bool" where
  "properTris faceList =
     (\<forall>i \<in> set [0..<length faceList div 3].
        distinct [faceList ! (3 * i), faceList ! (3 * i + 1), faceList ! (3 * i + 2)])"

text \<open>One sighting of a pair by a face: the body of the inner loop of makeEdgeList.\<close>

definition sight :: "(int \<times> int) \<times> int \<Rightarrow> edge_map \<times> edge list \<Rightarrow> edge_map \<times> edge list" where
  "sight s st =
     (case fst st (fst s) of
        None \<Rightarrow> ((fst st)(fst s \<mapsto> snd s), snd st)
      | Some f \<Rightarrow> (fst st, snd st @ [\<lparr>vertices = fst s, faces = (f, snd s)\<rparr>]))"

definition slots :: "int list \<Rightarrow> ((int \<times> int) \<times> int) list" where
  "slots faceList =
     concat (map (\<lambda>i. map (\<lambda>pa. (pa, int i)) (triPairs faceList i)) [0..<length faceList div 3])"

fun emitted :: "((int \<times> int) \<times> int) list \<Rightarrow> edge_map \<Rightarrow> edge list" where
  "emitted [] m = []"
| "emitted (s # ss) m =
     (case m (fst s) of
        None \<Rightarrow> emitted ss (m(fst s \<mapsto> snd s))
      | Some f \<Rightarrow> \<lparr>vertices = fst s, faces = (f, snd s)\<rparr> # emitted ss m)"

definition degenerateTri :: "int list" where "degenerateTri = [1, 2, 1]"


section \<open>Doubles, vectors and matrices\<close>

text \<open>
  A \<^verbatim>\<open>double\<close> is modelled as a real number or one of the special values of the
  floating-point standard: the two infinities and not-a-number. Arithmetic on finite
  values is exact (rounding, overflow and the sign of zero are left out: a zero divisor
  counts as positive zero, which is what a squared norm or a norm yields); the special values
  follow the standard, so that a division by zero gives an infinity or not-a-number
  instead of a number, and every comparison with not-a-number is false.
\<close>

datatype dbl = Fin real | PInf | NInf | NaN

fun dneg :: "dbl \<Rightarrow> dbl" where
  "dneg (Fin x) = Fin (- x)"
| "dneg PInf = NInf"
| "dneg NInf = PInf"
| "dneg NaN = NaN"

fun dadd :: "dbl \<Rightarrow> dbl \<Rightarrow> dbl" where
  "dadd (Fin x) (Fin y) = Fin (x + y)"
| "dadd NaN _ = NaN"
| "dadd _ NaN = NaN"
| "dadd PInf NInf = NaN"
| "dadd NInf PInf = NaN"
| "dadd PInf _ = PInf"
| "dadd _ PInf = PInf"
| "dadd NInf _ = NInf"
| "dadd _ NInf = NInf"

definition dsub :: "dbl \<Rightarrow> dbl \<Rightarrow> dbl" where
  "dsub x y = dadd x (dneg y)"

fun dmul :: "dbl \<Rightarrow> dbl \<Rightarrow> dbl" where
  "dmul (Fin x) (Fin y) = Fin (x * y)"
| "dmul NaN _ = NaN"
| "dmul _ NaN = NaN"
| "dmul (Fin x) y = (if x = 0 then NaN else if 0 < x then y else dneg y)"
| "dmul x (Fin y) = (if y = 0 then NaN else if 0 < y then x else dneg x)"
| "dmul PInf y = y"
| "dmul NInf y = dneg y"

fun ddiv :: "dbl \<Rightarrow> dbl \<Rightarrow> dbl" where
  "ddiv (Fin x) (Fin y) =
     (if y \<noteq> 0 then Fin (x / y) else if x = 0 then NaN else if 0 < x then PInf else NInf)"
| "ddiv NaN _ = NaN"
| "ddiv _ NaN = NaN"
| "ddiv (Fin x) _ = Fin 0"
| "ddiv x (Fin y) = (if 0 \<le> y then x else dneg x)"
| "ddiv _ _ = NaN"


fun dabs :: "dbl \<Rightarrow> dbl" where
  "dabs (Fin x) = Fin \<bar>x\<bar>"
| "dabs NaN = NaN"
| "dabs _ = PInf"

text \<open>\<open>dlt x y\<close> is the comparison \<^verbatim>\<open>x < y\<close>.\<close>

fun dlt :: "dbl \<Rightarrow> dbl \<Rightarrow> bool" where
  "dlt (Fin x) (Fin y) = (x < y)"
| "dlt NaN _ = False"
| "dlt _ NaN = False"
| "dlt _ NInf = False"
| "dlt PInf _ = False"
| "dlt _ _ = True"



text \<open>The macro \<^verbatim>\<open>EPSILON\<close> is \<^verbatim>\<open>10e-6\<close>.\<close>

definition EPSILON :: dbl where "EPSILON = Fin (1 / 100000)"

type_synonym Vector3d = "dbl \<times> dbl \<times> dbl"

definition vec :: "real \<Rightarrow> real \<Rightarrow> real \<Rightarrow> Vector3d" where
  "vec x y z = (Fin x, Fin y, Fin z)"


fun vsub :: "Vector3d \<Rightarrow> Vector3d \<Rightarrow> Vector3d" where
  "vsub (a0, a1, a2) (b0, b1, b2) = (dsub a0 b0, dsub a1 b1, dsub a2 b2)"

fun vscale :: "dbl \<Rightarrow> Vector3d \<Rightarrow> Vector3d" where
  "vscale t (a0, a1, a2) = (dmul t a0, dmul t a1, dmul t a2)"


fun dot :: "Vector3d \<Rightarrow> Vector3d \<Rightarrow> dbl" where
  "dot (a0, a1, a2) (b0, b1, b2) = dadd (dadd (dmul a0 b0) (dmul a1 b1)) (dmul a2 b2)"


definition squaredNorm :: "Vector3d \<Rightarrow> dbl" where
  "squaredNorm v = dot v v"




section \<open>Distance primitives\<close>

definition distPtLin :: "Vector3d \<Rightarrow> Vector3d \<Rightarrow> Vector3d \<Rightarrow> dbl" where
  "distPtLin p a b =
     (let t = ddiv (dot (vsub a b) (vsub p b)) (squaredNorm (vsub a b)) in
      if dlt (Fin 1) t then squaredNorm (vsub a p)
      else if dlt t (Fin 0) then squaredNorm (vsub b p)
      else squaredNorm (vsub (vscale t (vsub a b)) (vsub p b)))"







subsection \<open>The triangle normal and the example triangle\<close>




section \<open>makeWeightList and makePtsWeightList\<close>













subsection \<open>Incidence counts and averages\<close>






section \<open>Frame matrices\<close>

text \<open>A \<^verbatim>\<open>Matrix4d\<close> is given by its four rows.\<close>

type_synonym Vector4d = "dbl \<times> dbl \<times> dbl \<times> dbl"
type_synonym Matrix4d = "Vector4d \<times> Vector4d \<times> Vector4d \<times> Vector4d"

fun mat :: "Vector3d \<Rightarrow> Vector3d \<Rightarrow> Vector3d \<Rightarrow> Vector3d \<Rightarrow> Matrix4d" where
  "mat (p00, p01, p02) (p10, p11, p12) (p20, p21, p22) (c0, c1, c2) =
     ((p00, p01, p02, Fin 1), (p10, p11, p12, Fin 1), (p20, p21, p22, Fin 1), (c0, c1, c2, Fin 1))"

fun coeff :: "Matrix4d \<Rightarrow> nat \<Rightarrow> nat \<Rightarrow> dbl" where
  "coeff (r0, r1, r2, r3) i j =
     (case (if i = 0 then r0 else if i = 1 then r1 else if i = 2 then r2 else r3) of
        (x0, x1, x2, x3) \<Rightarrow> if j = 0 then x0 else if j = 1 then x1 else if j = 2 then x2 else x3)"

text \<open>
  The determinant of the matrix library for this size: six products of a minor of the first
  two columns with a minor of the last two.
\<close>

definition det4_helper :: "Matrix4d \<Rightarrow> nat \<Rightarrow> nat \<Rightarrow> nat \<Rightarrow> nat \<Rightarrow> dbl" where
  "det4_helper M j k m n =
     dmul (dsub (dmul (coeff M j 0) (coeff M k 1)) (dmul (coeff M k 0) (coeff M j 1)))
          (dsub (dmul (coeff M m 2) (coeff M n 3)) (dmul (coeff M n 2) (coeff M m 3)))"

definition determinant :: "Matrix4d \<Rightarrow> dbl" where
  "determinant M =
     dadd (dsub (dadd (dadd (dsub (det4_helper M 0 1 2 3) (det4_helper M 0 2 1 3))
                            (det4_helper M 0 3 1 2))
                      (det4_helper M 1 2 0 3))
                (det4_helper M 1 3 0 2))
          (det4_helper M 2 3 0 1)"

section \<open>removeDegenerate\<close>

text \<open>
  The test \<^verbatim>\<open>abs(P[i].determinant()) > EPSILON\<close>, with \<^verbatim>\<open>abs\<close> the absolute value
  of a \<^verbatim>\<open>double\<close>.
\<close>

definition isGood :: "Matrix4d \<Rightarrow> bool" where
  "isGood M = dlt EPSILON (dabs (determinant M))"

text \<open>The lists the call leaves behind, and the value it returns.\<close>

record remaining =
  newTetList :: "int list"
  newFaceList :: "int list"
  newEdgeList :: "edge list"
  newVertexList :: "vertex list"
  newDim :: int

definition goodFace :: "Matrix4d list \<Rightarrow> nat \<Rightarrow> nat list \<Rightarrow> nat list option" where
  "goodFace P i goodList =
     do { M \<leftarrow> elem_at P (int i); Some (if isGood M then goodList @ [i] else goodList) }"

definition copyFace :: "int list \<Rightarrow> nat \<Rightarrow> int list \<Rightarrow> int list option" where
  "copyFace oldFaceList g faceList =
     do {
       a \<leftarrow> elem_at oldFaceList (3 * int g);
       b \<leftarrow> elem_at oldFaceList (3 * int g + 1);
       c \<leftarrow> elem_at oldFaceList (3 * int g + 2);
       Some (faceList @ [a, b, c])
     }"

text \<open>The conjunction \<^verbatim>\<open>&&\<close> reads the second matrix only when the first one passes.\<close>

definition goodEdge :: "Matrix4d list \<Rightarrow> nat \<Rightarrow> nat list \<Rightarrow> nat list option" where
  "goodEdge P i goodList =
     do {
       M0 \<leftarrow> elem_at P (2 * int i);
       if isGood M0 then
         do { M1 \<leftarrow> elem_at P (2 * int i + 1); Some (if isGood M1 then goodList @ [i] else goodList) }
       else Some goodList
     }"

definition goodWedge :: "Matrix4d list \<Rightarrow> nat \<Rightarrow> bool \<times> int \<Rightarrow> (bool \<times> int) option" where
  "goodWedge P j st =
     do {
       g \<leftarrow> (if fst st then do { M \<leftarrow> elem_at P (snd st); Some (isGood M) } else Some False);
       Some (g, snd st + 1)
     }"

definition goodVertex :: "Matrix4d list \<Rightarrow> vertex list \<Rightarrow> nat \<Rightarrow> nat list \<times> int \<Rightarrow> (nat list \<times> int) option" where
  "goodVertex P vertexList i st =
     do {
       r \<leftarrow> for_each (goodWedge P) [0..<length (connectedTriangles (vertexList ! i)) div 2] (True, snd st);
       Some (if fst r then fst st @ [i] else fst st, snd r)
     }"

definition removeDegenerate ::
  "int \<Rightarrow> int \<Rightarrow> int list \<Rightarrow> int list \<Rightarrow> edge list \<Rightarrow> vertex list \<Rightarrow> Matrix4d list \<Rightarrow> remaining option" where
  "removeDegenerate tetMode numPts tetList faceList edgeList vertexList P =
     do {
       lists \<leftarrow>
         (if tetMode = TM_FACE then
            do {
              goodList \<leftarrow> for_each (goodFace P) [0..<length tetList div 4] [];
              faceList' \<leftarrow> for_each (copyFace faceList) goodList [];
              Some (faceList', makeEdgeList faceList', vertexList)
            }
          else if tetMode = TM_EDGE then
            do {
              goodList \<leftarrow> for_each (goodEdge P) [0..<length edgeList] [];
              Some (faceList, map (\<lambda>g. edgeList ! g) goodList, vertexList)
            }
          else if tetMode = TM_VERTEX \<or> tetMode = TM_VFACE then
            do {
              st \<leftarrow> for_each (goodVertex P vertexList) [0..<length vertexList] ([], 0);
              Some (faceList, edgeList, map (\<lambda>g. vertexList ! g) (fst st))
            }
          else Some (faceList, edgeList, vertexList));
       r \<leftarrow> makeTetList tetMode numPts (fst lists) (fst (snd lists)) (snd (snd lists));
       Some \<lparr>newTetList = fst r, newFaceList = fst lists, newEdgeList = fst (snd lists),
             newVertexList = snd (snd lists), newDim = snd r\<rparr>
     }"


subsection \<open>Example frames and the surviving elements\<close>

definition goodM :: Matrix4d where "goodM = mat (vec 0 0 0) (vec 1 0 0) (vec 0 1 0) (vec 0 0 1)"
definition flatM :: Matrix4d where "flatM = mat (vec 0 0 0) (vec 0 0 0) (vec 0 0 0) (vec 0 0 0)"

text \<open>The edges that pass the test of the per-edge branch: both frames of the edge are good.\<close>

definition keptEdges :: "Matrix4d list \<Rightarrow> edge list \<Rightarrow> edge list" where
  "keptEdges P edgeList =
     map (\<lambda>i. edgeList ! i)
       (filter (\<lambda>i. isGood (P ! (2 * i)) \<and> isGood (P ! (2 * i + 1))) [0..<length edgeList])"

text \<open>The vertices that pass the test of the per-vertex branch: the frame of every wedge is good.\<close>

definition keptVertices :: "Matrix4d list \<Rightarrow> vertex list \<Rightarrow> vertex list" where
  "keptVertices P vertexList =
     map (\<lambda>i. vertexList ! i)
       (filter (\<lambda>i. \<forall>j \<in> set [0..<length (connectedTriangles (vertexList ! i)) div 2].
                       isGood (P ! (wedgeCount (take i vertexList) + j)))
          [0..<length vertexList])"


section \<open>tetMatrix and tetMatrixNormalised\<close>















subsection \<open>Unit edges and proper corners\<close>













section \<open>Properties of makeTetList\<close>

lemmas TM_defs = TM_FACE_def TM_EDGE_def TM_VERTEX_def TM_VFACE_def

lemma add32_id: "- 2147483648 \<le> a + b \<Longrightarrow> a + b \<le> 2147483647 \<Longrightarrow> add32 a b = a + b"
  by (simp add: add32_def wrap32_def)

lemma for_each_append:
  "for_each body (xs @ ys) s = (case for_each body xs s of None \<Rightarrow> None | Some s' \<Rightarrow> for_each body ys s')"
  by (induction xs arbitrary: s) (auto split: option.splits)

lemma fold_push: "fold (\<lambda>x acc. acc @ g x) xs acc = acc @ concat (map g xs)"
  by (induction xs arbitrary: acc) auto

lemma update4_apex:
  "4 * p + 3 < length ts \<Longrightarrow>
   ts[4 * p := a, 4 * p + 1 := b, 4 * p + 2 := c, 4 * p + 3 := d] ! (4 * q + 3)
     = (if q = p then d else ts ! (4 * q + 3))"
  by (auto simp: nth_list_update)

lemma update8_apex:
  "8 * i + 4 * j + 3 < length ts \<Longrightarrow>
   ts[8 * i + 4 * j := a, 8 * i + 4 * j + 1 := b, 8 * i + 4 * j + 2 := c, 8 * i + 4 * j + 3 := d] ! (4 * q + 3)
     = (if q = 2 * i + j then d else ts ! (4 * q + 3))"
  by (auto simp: nth_list_update)

lemma length_faceTet [simp]: "length (faceTet n fl i ts) = length ts"
  by (simp add: faceTet_def)

lemma faceTet_apex:
  "4 * i + 3 < length ts \<Longrightarrow>
   faceTet n fl i ts ! (4 * q + 3) = (if q = i then add32 (int i) n else ts ! (4 * q + 3))"
  unfolding faceTet_def by (rule update4_apex)

lemma length_fold_faceTet [simp]: "length (fold (faceTet n fl) is ts) = length ts"
  by (induction "is" arbitrary: ts) auto

lemma fold_faceTet_apex:
  "4 * k \<le> length ts \<Longrightarrow> i < k \<Longrightarrow> fold (faceTet n fl) [0..<k] ts ! (4 * i + 3) = add32 (int i) n"
proof (induction k)
  case 0 then show ?case by simp
next
  case (Suc k)
  have len: "4 * k + 3 < length (fold (faceTet n fl) [0..<k] ts)"
    using Suc.prems by simp
  show ?case
  proof (cases "i = k")
    case True
    with len show ?thesis by (simp add: faceTet_apex)
  next
    case False
    with Suc.prems have "i < k" by simp
    with Suc len False show ?thesis by (simp add: faceTet_apex)
  qed
qed

lemma findOpposite_ok:
  assumes "0 \<le> f" "3 * f + 2 < int (length fl)"
    and "\<exists>k \<in> {0, 1, 2}. fl ! (3 * nat f + k) \<noteq> fst (vertices e) \<and> fl ! (3 * nat f + k) \<noteq> snd (vertices e)"
  shows "\<exists>k < 3. findOpposite fl f e 0 = Some k"
proof -
  have n: "nat (3 * f) = 3 * nat f" "nat (3 * f + 1) = 3 * nat f + 1" "nat (3 * f + 2) = 3 * nat f + 2"
    using assms(1) by auto
  have s0: "findOpposite fl f e 0 =
      (if fl ! (3 * nat f) = fst (vertices e) \<or> fl ! (3 * nat f) = snd (vertices e)
       then findOpposite fl f e 1 else Some 0)"
    using assms(1,2) n by (subst findOpposite.simps) simp
  have s1: "findOpposite fl f e 1 =
      (if fl ! (3 * nat f + 1) = fst (vertices e) \<or> fl ! (3 * nat f + 1) = snd (vertices e)
       then findOpposite fl f e 2 else Some 1)"
    using assms(1,2) n by (subst findOpposite.simps) (simp add: numeral_2_eq_2)
  have s2: "findOpposite fl f e 2 =
      (if fl ! (3 * nat f + 2) = fst (vertices e) \<or> fl ! (3 * nat f + 2) = snd (vertices e)
       then findOpposite fl f e 3 else Some 2)"
    using assms(1,2) n by (subst findOpposite.simps) (simp add: numeral_3_eq_3)
  from assms(3) show ?thesis
    unfolding s0 s1 s2 by auto
qed

lemma edgeTet_ok:
  assumes "edgeOK fl (el ! i)" "j < 2" "8 * i + 4 * j + 3 < length ts"
  shows "\<exists>ts'. edgeTet n fl el i j ts = Some ts' \<and> length ts' = length ts \<and>
           (\<forall>q. ts' ! (4 * q + 3) = (if q = 2 * i + j then add32 (int i) n else ts ! (4 * q + 3)))"
proof -
  define f where "f = (if j = 0 then fst (faces (el ! i)) else snd (faces (el ! i)))"
  have f: "0 \<le> f" "3 * f + 2 < int (length fl)"
    "\<exists>k \<in> {0, 1, 2}. fl ! (3 * nat f + k) \<noteq> fst (vertices (el ! i)) \<and> fl ! (3 * nat f + k) \<noteq> snd (vertices (el ! i))"
    using assms(1) unfolding edgeOK_def f_def by auto
  from findOpposite_ok[OF f] obtain k where k: "k < 3" "findOpposite fl f (el ! i) 0 = Some k"
    by blast
  have r: "\<And>m. m < 3 \<Longrightarrow> elem_at fl (3 * f + int m) = Some (fl ! nat (3 * f + int m))"
    using f(1,2) by (simp add: elem_at_def)
  have m: "(k + 1) mod 3 < 3" "(k + 2) mod 3 < 3" by simp_all
  have eq: "edgeTet n fl el i j ts =
      Some (ts[8 * i + 4 * j := fl ! nat (3 * f + int ((k + 1) mod 3)),
               8 * i + 4 * j + 1 := fl ! nat (3 * f + int ((k + 2) mod 3)),
               8 * i + 4 * j + 2 := fl ! nat (3 * f + int k),
               8 * i + 4 * j + 3 := add32 (int i) n])"
    unfolding edgeTet_def Let_def f_def[symmetric]
    using k r[OF k(1)] r[OF m(1)] r[OF m(2)] by simp
  show ?thesis
    unfolding eq using assms(3) by (auto simp: nth_list_update)
qed


lemma for_each_edges:
  assumes "\<forall>i < k. edgeOK fl (el ! i)" "8 * k \<le> length ts"
  shows "\<exists>ts'. for_each (\<lambda>i. for_each (edgeTet n fl el i) [0..<2]) [0..<k] ts = Some ts'
          \<and> length ts' = length ts
          \<and> (\<forall>q. ts' ! (4 * q + 3) = (if q < 2 * k then add32 (int (q div 2)) n else ts ! (4 * q + 3)))"
  using assms
proof (induction k)
  case 0 then show ?case by simp
next
  case (Suc k)
  from Suc obtain t0 where t0: "for_each (\<lambda>i. for_each (edgeTet n fl el i) [0..<2]) [0..<k] ts = Some t0"
    "length t0 = length ts"
    "\<And>q. t0 ! (4 * q + 3) = (if q < 2 * k then add32 (int (q div 2)) n else ts ! (4 * q + 3))"
    by auto
  have ok: "edgeOK fl (el ! k)" using Suc.prems by simp
  from edgeTet_ok[OF ok, of 0 t0 n] Suc.prems(2) t0(2)
  obtain t1 where t1: "edgeTet n fl el k 0 t0 = Some t1" "length t1 = length ts"
    "\<And>q. t1 ! (4 * q + 3) = (if q = 2 * k then add32 (int k) n else t0 ! (4 * q + 3))"
    by auto
  from edgeTet_ok[OF ok, of 1 t1 n] Suc.prems(2) t1(2)
  obtain t2 where t2: "edgeTet n fl el k 1 t1 = Some t2" "length t2 = length ts"
    "\<And>q. t2 ! (4 * q + 3) = (if q = 2 * k + 1 then add32 (int k) n else t1 ! (4 * q + 3))"
    by auto
  have two: "[0..<2] = [0, 1::nat]" by (simp add: upt_rec)
  have run: "for_each (\<lambda>i. for_each (edgeTet n fl el i) [0..<2]) [0..<Suc k] ts = Some t2"
    using t0(1) t1(1) t2(1) by (simp add: for_each_append two)
  have "t2 ! (4 * q + 3) = (if q < 2 * Suc k then add32 (int (q div 2)) n else ts ! (4 * q + 3))" for q
  proof -
    have d: "q = 2 * k \<or> q = 2 * k + 1 \<Longrightarrow> q div 2 = k" by auto
    show ?thesis
      using t2(3)[of q] t1(3)[of q] t0(3)[of q] d by (auto split: if_splits)
  qed
  with run t2(2) show ?case by blast
qed

lemma wedgeCount_take_Suc:
  "k < length vl \<Longrightarrow> wedgeCount (take (Suc k) vl) = wedgeCount (take k vl) + length (connectedTriangles (vl ! k)) div 2"
  by (simp add: wedgeCount_def take_Suc_conv_app_nth)

lemma apexes_push:
  assumes "apexes_in lo hi r" "4 dvd length r" "lo \<le> d" "d < hi"
  shows "apexes_in lo hi (r @ [a, b, c, d])"
  unfolding apexes_in_def
proof (intro allI impI)
  fix q assume q: "q < length (r @ [a, b, c, d]) div 4"
  from assms(2) obtain m where m: "length r = 4 * m" by (auto simp: dvd_def)
  show "lo \<le> (r @ [a, b, c, d]) ! (4 * q + 3) \<and> (r @ [a, b, c, d]) ! (4 * q + 3) < hi"
  proof (cases "q < m")
    case True
    then have "(r @ [a, b, c, d]) ! (4 * q + 3) = r ! (4 * q + 3)"
      using m by (simp add: nth_append)
    with assms(1) True m show ?thesis by (simp add: apexes_in_def)
  next
    case False
    with q m have "q = m" by simp
    then have "(r @ [a, b, c, d]) ! (4 * q + 3) = d"
      using m by (simp add: nth_append)
    with assms(3,4) show ?thesis by simp
  qed
qed

lemma apexes_mono: "apexes_in lo hi r \<Longrightarrow> hi \<le> hi' \<Longrightarrow> apexes_in lo hi' r"
  by (fastforce simp: apexes_in_def)

lemma vertexTet_step:
  assumes "apexes_in n hi r" "4 dvd length r" "n \<le> add32 n (int i)" "add32 n (int i) < hi"
  shows "apexes_in n hi (vertexTet n vl i j r)" "length (vertexTet n vl i j r) = length r + 4"
  using assms by (simp_all add: vertexTet_def apexes_push)

lemma fold_vertexTet:
  assumes "apexes_in n hi ts" "4 dvd length ts" "n \<le> add32 n (int i)" "add32 n (int i) < hi"
  shows "apexes_in n hi (fold (vertexTet n vl i) [0..<m] ts)
       \<and> length (fold (vertexTet n vl i) [0..<m] ts) = length ts + 4 * m"
proof (induction m)
  case 0 with assms show ?case by simp
next
  case (Suc m)
  let ?r = "fold (vertexTet n vl i) [0..<m] ts"
  from Suc have ih: "apexes_in n hi ?r" "length ?r = length ts + 4 * m" by simp_all
  have d: "4 dvd length ?r" using ih(2) assms(2) by simp
  from vertexTet_step[OF ih(1) d assms(3,4), of vl m] ih(2) show ?case
    by simp
qed

lemma fold_vertices:
  assumes "k \<le> length vl" "- 2147483648 \<le> n" "n + int (length vl) \<le> 2147483647"
  shows "apexes_in n (n + int (length vl))
           (fold (\<lambda>i. fold (vertexTet n vl i) [0..<length (connectedTriangles (vl ! i)) div 2]) [0..<k] [])
       \<and> length (fold (\<lambda>i. fold (vertexTet n vl i) [0..<length (connectedTriangles (vl ! i)) div 2]) [0..<k] [])
           = 4 * wedgeCount (take k vl)"
  using assms
proof (induction k)
  case 0 show ?case by (simp add: apexes_in_def wedgeCount_def)
next
  case (Suc k)
  let ?r = "fold (\<lambda>i. fold (vertexTet n vl i) [0..<length (connectedTriangles (vl ! i)) div 2]) [0..<k] []"
  from Suc have ih: "apexes_in n (n + int (length vl)) ?r" "length ?r = 4 * wedgeCount (take k vl)"
    by simp_all
  have d: "4 dvd length ?r" using ih(2) by simp
  have e: "add32 n (int k) = n + int k" using Suc.prems by (intro add32_id) simp_all
  have lt: "n \<le> add32 n (int k)" "add32 n (int k) < n + int (length vl)"
    unfolding e using Suc.prems by simp_all
  from fold_vertexTet[OF ih(1) d lt, of vl "length (connectedTriangles (vl ! k)) div 2"]
  show ?case using Suc.prems ih(2) by (simp add: wedgeCount_take_Suc)
qed

lemma vfaceTet_step:
  assumes "apexes_in n (n + snd s) (fst s)" "4 dvd length (fst s)" "0 \<le> snd s"
    and "add32 n (snd s) = n + snd s"
  shows "apexes_in n (n + snd s + 1) (fst (vfaceTet n vl i j s))"
    "length (fst (vfaceTet n vl i j s)) = length (fst s) + 4"
    "snd (vfaceTet n vl i j s) = snd s + 1"
proof -
  have a: "apexes_in n (n + snd s + 1) (fst s)" using assms(1) by (rule apexes_mono) simp
  show "apexes_in n (n + snd s + 1) (fst (vfaceTet n vl i j s))"
    unfolding vfaceTet_def fst_conv assms(4) using assms(3) by (intro apexes_push[OF a assms(2)]) simp_all
qed (simp_all add: vfaceTet_def)

lemma fold_vfaceTet:
  assumes "apexes_in n (n + c) ts" "4 dvd length ts" "0 \<le> c" "- 2147483648 \<le> n"
    and "n + c + int m \<le> 2147483648"
  shows "apexes_in n (n + c + int m) (fst (fold (vfaceTet n vl i) [0..<m] (ts, c)))
       \<and> length (fst (fold (vfaceTet n vl i) [0..<m] (ts, c))) = length ts + 4 * m
       \<and> snd (fold (vfaceTet n vl i) [0..<m] (ts, c)) = c + int m"
  using assms(5)
proof (induction m)
  case 0 with assms show ?case by simp
next
  case (Suc m)
  let ?s = "fold (vfaceTet n vl i) [0..<m] (ts, c)"
  from Suc.prems have "n + c + int m \<le> 2147483648" by simp
  with Suc.IH have ih: "apexes_in n (n + c + int m) (fst ?s)" "length (fst ?s) = length ts + 4 * m"
    "snd ?s = c + int m" by simp_all
  have d: "4 dvd length (fst ?s)" using ih(2) assms(2) by simp
  have a: "apexes_in n (n + snd ?s) (fst ?s)" using ih(1,3) by (simp add: add.assoc)
  have c: "0 \<le> snd ?s" using ih(3) assms(3) by simp
  have e: "add32 n (snd ?s) = n + snd ?s"
    unfolding ih(3) using Suc.prems assms(3,4) by (intro add32_id) simp_all
  from vfaceTet_step[OF a d c e, of vl i m] ih(2,3) show ?case
    by (simp add: ac_simps)
qed

lemma wedgeCount_take_le: "wedgeCount (take k vl) \<le> wedgeCount vl"
proof -
  have "wedgeCount vl = wedgeCount (take k vl @ drop k vl)" by simp
  also have "\<dots> = wedgeCount (take k vl) + wedgeCount (drop k vl)"
    unfolding wedgeCount_def by (simp only: map_append sum_list_append)
  finally show ?thesis by simp
qed

lemma fold_vfaces:
  assumes "k \<le> length vl" "- 2147483648 \<le> n" "n + int (wedgeCount vl) \<le> 2147483647"
  shows "let s = fold (\<lambda>i. fold (vfaceTet n vl i) [0..<length (connectedTriangles (vl ! i)) div 2]) [0..<k] ([], 0)
         in apexes_in n (n + int (wedgeCount (take k vl))) (fst s)
          \<and> length (fst s) = 4 * wedgeCount (take k vl)
          \<and> snd s = int (wedgeCount (take k vl))"
  using assms
proof (induction k)
  case 0 show ?case by (simp add: apexes_in_def wedgeCount_def)
next
  case (Suc k)
  let ?s = "fold (\<lambda>i. fold (vfaceTet n vl i) [0..<length (connectedTriangles (vl ! i)) div 2]) [0..<k] ([], 0)"
  let ?w = "wedgeCount (take k vl)"
  from Suc have ih: "apexes_in n (n + int ?w) (fst ?s)" "length (fst ?s) = 4 * ?w" "snd ?s = int ?w"
    by (simp_all add: Let_def)
  have d: "4 dvd length (fst ?s)" using ih(2) by simp
  have s: "?s = (fst ?s, int ?w)" by (rule prod_eqI) (simp_all add: ih(3))
  have z: "(0::int) \<le> int ?w" by simp
  let ?m = "length (connectedTriangles (vl ! k)) div 2"
  have "fold (\<lambda>i. fold (vfaceTet n vl i) [0..<length (connectedTriangles (vl ! i)) div 2]) [0..<Suc k] ([], 0)
      = fold (vfaceTet n vl k) [0..<?m] ?s"
    by simp
  also have "\<dots> = fold (vfaceTet n vl k) [0..<?m] (fst ?s, int ?w)"
    by (rule arg_cong[OF s])
  finally have step: "fold (\<lambda>i. fold (vfaceTet n vl i) [0..<length (connectedTriangles (vl ! i)) div 2]) [0..<Suc k] ([], 0)
      = fold (vfaceTet n vl k) [0..<?m] (fst ?s, int ?w)" .
  have w: "wedgeCount (take (Suc k) vl) = ?w + ?m"
    using Suc.prems by (simp add: wedgeCount_take_Suc)
  have hi: "n + int ?w + int ?m \<le> 2147483648"
    using wedgeCount_take_le[of "Suc k" vl] assms(3) w by simp
  from fold_vfaceTet[OF ih(1) d z assms(2) hi, where vl = vl and i = k]
  show ?case unfolding step w Let_def using ih(2)
    by (simp add: add.assoc)
qed

lemma makeTetList_edge_returns:
  assumes "\<forall>e \<in> set edgeList. edgeOK faceList e"
  shows "\<exists>tetList dim. makeTetList TM_EDGE numPts faceList edgeList vertexList = Some (tetList, dim)
     \<and> length tetList = 4 * (2 * length edgeList)
     \<and> (\<forall>q < 2 * length edgeList. tetList ! (4 * q + 3) = add32 (int (q div 2)) numPts)"
proof -
  have ok: "\<forall>i < length edgeList. edgeOK faceList (edgeList ! i)" using assms by simp
  from for_each_edges[OF ok, of "replicate (4 * (2 * length edgeList)) 0" numPts]
  obtain ts where ts:
    "for_each (\<lambda>i. for_each (edgeTet numPts faceList edgeList i) [0..<2]) [0..<length edgeList]
       (replicate (4 * (2 * length edgeList)) 0) = Some ts"
    "length ts = 4 * (2 * length edgeList)"
    "\<And>q. ts ! (4 * q + 3) = (if q < 2 * length edgeList then add32 (int (q div 2)) numPts
                              else replicate (4 * (2 * length edgeList)) 0 ! (4 * q + 3))"
    by auto
  have "makeTetList TM_EDGE numPts faceList edgeList vertexList
      = Some (ts, add32 numPts (int (length edgeList)))"
    using ts(1) by (simp add: makeTetList_def TM_defs Let_def)
  moreover have "\<forall>q < 2 * length edgeList. ts ! (4 * q + 3) = add32 (int (q div 2)) numPts"
    by (simp add: ts(3))
  ultimately show ?thesis using ts(2) by blast
qed

lemma makeTetList_vertex_returns:
  "tetMode = TM_VERTEX \<or> tetMode = TM_VFACE \<Longrightarrow>
   \<exists>tetList dim. makeTetList tetMode numPts faceList edgeList vertexList = Some (tetList, dim)"
  by (auto simp: makeTetList_def TM_defs Let_def)

lemma makeTetList_face:
  assumes "- 2147483648 \<le> numPts" "numPts + int (length faceList div 3) \<le> 2147483647"
  shows "\<exists>tetList. makeTetList TM_FACE numPts faceList edgeList vertexList
       = Some (tetList, numPts + int (length faceList div 3))
     \<and> length tetList = 4 * (length faceList div 3)
     \<and> apexes_in numPts (numPts + int (length faceList div 3)) tetList"
proof -
  have d: "add32 (int (length faceList div 3)) numPts = numPts + int (length faceList div 3)"
    using assms by (simp add: add32_id)
  have a: "add32 (int i) numPts = int i + numPts" if "i < length faceList div 3" for i
    using assms that by (intro add32_id) simp_all
  show ?thesis
    by (simp add: makeTetList_def Let_def apexes_in_def fold_faceTet_apex d a)
qed

lemma makeTetList_edge:
  assumes "\<forall>e \<in> set edgeList. edgeOK faceList e"
    and "- 2147483648 \<le> numPts" "numPts + int (length edgeList) \<le> 2147483647"
  shows "\<exists>tetList. makeTetList TM_EDGE numPts faceList edgeList vertexList
       = Some (tetList, numPts + int (length edgeList))
     \<and> length tetList = 4 * (2 * length edgeList)
     \<and> apexes_in numPts (numPts + int (length edgeList)) tetList"
proof -
  have ok: "\<forall>i < length edgeList. edgeOK faceList (edgeList ! i)" using assms(1) by simp
  from for_each_edges[OF ok, of "replicate (4 * (2 * length edgeList)) 0" numPts]
  obtain ts where ts:
    "for_each (\<lambda>i. for_each (edgeTet numPts faceList edgeList i) [0..<2]) [0..<length edgeList]
       (replicate (4 * (2 * length edgeList)) 0) = Some ts"
    "length ts = 4 * (2 * length edgeList)"
    "\<And>q. ts ! (4 * q + 3) = (if q < 2 * length edgeList then add32 (int (q div 2)) numPts
                              else replicate (4 * (2 * length edgeList)) 0 ! (4 * q + 3))"
    by auto
  have d: "add32 numPts (int (length edgeList)) = numPts + int (length edgeList)"
    using assms(2,3) by (simp add: add32_id)
  have a: "add32 (int (q div 2)) numPts = int (q div 2) + numPts" if "q < 2 * length edgeList" for q
  proof -
    from that have "q div 2 < length edgeList" by simp
    with assms(2,3) show ?thesis by (intro add32_id) simp_all
  qed
  have "apexes_in numPts (numPts + int (length edgeList)) ts"
    unfolding apexes_in_def
  proof (intro allI impI)
    fix q assume "q < length ts div 4"
    with ts(2) have q: "q < 2 * length edgeList" by simp
    then have "q div 2 < length edgeList" by simp
    with ts(3)[of q] q a[OF q]
    show "numPts \<le> ts ! (4 * q + 3) \<and> ts ! (4 * q + 3) < numPts + int (length edgeList)"
      by simp
  qed
  with ts(1,2) d show ?thesis
    by (simp add: makeTetList_def TM_defs Let_def)
qed

lemma makeTetList_vertex:
  assumes "- 2147483648 \<le> numPts" "numPts + int (length vertexList) \<le> 2147483647"
  shows "\<exists>tetList. makeTetList TM_VERTEX numPts faceList edgeList vertexList
       = Some (tetList, numPts + int (length vertexList))
     \<and> length tetList = 4 * wedgeCount vertexList
     \<and> apexes_in numPts (numPts + int (length vertexList)) tetList"
proof -
  have d: "add32 numPts (int (length vertexList)) = numPts + int (length vertexList)"
    using assms by (simp add: add32_id)
  from fold_vertices[OF order_refl assms] show ?thesis
    by (simp add: makeTetList_def TM_defs d)
qed

lemma makeTetList_vface:
  assumes "- 2147483648 \<le> numPts" "numPts + int (wedgeCount vertexList) \<le> 2147483647"
  shows "\<exists>tetList. makeTetList TM_VFACE numPts faceList edgeList vertexList
       = Some (tetList, numPts + int (wedgeCount vertexList))
     \<and> length tetList = 4 * wedgeCount vertexList
     \<and> apexes_in numPts (numPts + int (wedgeCount vertexList)) tetList"
proof -
  have d: "add32 numPts (int (wedgeCount vertexList)) = numPts + int (wedgeCount vertexList)"
    using assms by (simp add: add32_id)
  from fold_vfaces[OF order_refl assms] show ?thesis
    by (simp add: makeTetList_def TM_defs Let_def d)
qed

text \<open>
  C1, as amended. In each of the four modes, on every well-formed input and for every
  32-bit numPts for which numPts plus the ghost count of the mode (faces, edges,
  vertices, wedges) does not exceed 2147483647, makeTetList returns numPts plus that
  ghost count, it emits the mode's number of tetrahedra, and the apex stored at
  position 3 of every emitted tetrahedron lies in the half-open range from numPts to
  the returned count. Without the bound the sum wraps around: with numPts = 2147483647
  and a single face the returned count is -2147483648.
\<close>

theorem makeTetList_point_count:
  assumes "tetMode \<in> {TM_FACE, TM_EDGE, TM_VERTEX, TM_VFACE}"
    and "wellFormed tetMode faceList edgeList"
    and "fits32 tetMode numPts faceList edgeList vertexList"
  shows "\<exists>tetList. makeTetList tetMode numPts faceList edgeList vertexList
            = Some (tetList, numPts + int (ghostCount tetMode faceList edgeList vertexList))
          \<and> length tetList = 4 * tetCount tetMode faceList edgeList vertexList
          \<and> (\<forall>q < length tetList div 4.
                numPts \<le> tetList ! (4 * q + 3) \<and>
                tetList ! (4 * q + 3) < numPts + int (ghostCount tetMode faceList edgeList vertexList))"
proof -
  from assms(3) have lo: "- 2147483648 \<le> numPts"
    and hi: "numPts + int (ghostCount tetMode faceList edgeList vertexList) \<le> 2147483647"
    by (simp_all add: fits32_def)
  consider "tetMode = TM_FACE" | "tetMode = TM_EDGE" | "tetMode = TM_VERTEX" | "tetMode = TM_VFACE"
    using assms(1) by blast
  then show ?thesis
  proof cases
    case 1
    with hi have "numPts + int (length faceList div 3) \<le> 2147483647"
      by (simp add: ghostCount_def)
    from makeTetList_face[OF lo this, of edgeList vertexList] 1 show ?thesis
      by (simp add: ghostCount_def tetCount_def apexes_in_def)
  next
    case 2
    with assms(2) have ok: "\<forall>e \<in> set edgeList. edgeOK faceList e" by (simp add: wellFormed_def)
    from 2 hi have "numPts + int (length edgeList) \<le> 2147483647"
      by (simp add: ghostCount_def TM_defs)
    from makeTetList_edge[OF ok lo this, of vertexList] 2 show ?thesis
      by (simp add: ghostCount_def tetCount_def apexes_in_def TM_defs)
  next
    case 3
    with hi have "numPts + int (length vertexList) \<le> 2147483647"
      by (simp add: ghostCount_def TM_defs)
    from makeTetList_vertex[OF lo this, of faceList edgeList] 3 show ?thesis
      by (simp add: ghostCount_def tetCount_def apexes_in_def TM_defs)
  next
    case 4
    with hi have "numPts + int (wedgeCount vertexList) \<le> 2147483647"
      by (simp add: ghostCount_def TM_defs)
    from makeTetList_vface[OF lo this, of faceList edgeList] 4 show ?thesis
      by (simp add: ghostCount_def tetCount_def apexes_in_def TM_defs)
  qed
qed

lemma quad_wf: "wellFormed TM_EDGE quadFaces quadEdges"
  by (simp add: wellFormed_def edgeOK_def quadFaces_def quadEdges_def)

theorem makeTetList_point_count_witness:
  "TM_EDGE \<in> {TM_FACE, TM_EDGE, TM_VERTEX, TM_VFACE} \<and> wellFormed TM_EDGE quadFaces quadEdges
   \<and> fits32 TM_EDGE 4 quadFaces quadEdges []
   \<and> (\<exists>tetList. makeTetList TM_EDGE 4 quadFaces quadEdges [] = Some (tetList, 5)
          \<and> length tetList = 8
          \<and> (\<forall>q < length tetList div 4. 4 \<le> tetList ! (4 * q + 3) \<and> tetList ! (4 * q + 3) < 5))"
proof -
  have m: "TM_EDGE \<in> {TM_FACE, TM_EDGE, TM_VERTEX, TM_VFACE}" by simp
  have g: "ghostCount TM_EDGE quadFaces quadEdges [] = 1" "tetCount TM_EDGE quadFaces quadEdges [] = 2"
    by (simp_all add: ghostCount_def tetCount_def TM_defs quadEdges_def)
  have f: "fits32 TM_EDGE 4 quadFaces quadEdges []"
    unfolding fits32_def g by simp
  from makeTetList_point_count[OF m quad_wf f] m quad_wf f show ?thesis
    unfolding g by simp
qed

theorem makeTetList_overflow_counterexample:
  "wellFormed TM_FACE [0, 1, 2] []
   \<and> ghostCount TM_FACE [0, 1, 2] [] [] = 1
   \<and> makeTetList TM_FACE 2147483647 [0, 1, 2] [] [] = Some ([0, 1, 2, 2147483647], - 2147483648)
   \<and> (- 2147483648 :: int) \<noteq> 2147483647 + int (ghostCount TM_FACE [0, 1, 2] [] [])
   \<and> \<not> (2147483647 :: int) < - 2147483648"
  by code_simp


lemma vertexTet_block: "\<exists>b. vertexTet n vl i j r = r @ b \<and> length b = 4"
  by (simp add: vertexTet_def)

lemma vfaceTet_block: "\<exists>b c'. vfaceTet n vl i j (r, c) = (r @ b, c') \<and> length b = 4"
  by (simp add: vfaceTet_def)

lemma fold_vertexTet_block:
  "\<exists>blk. fold (vertexTet n vl i) [0..<m] ts = ts @ blk \<and> length blk = 4 * m"
proof (induction m)
  case 0 show ?case by simp
next
  case (Suc m)
  then obtain blk where blk: "fold (vertexTet n vl i) [0..<m] ts = ts @ blk" "length blk = 4 * m"
    by blast
  from vertexTet_block[of n vl i m "ts @ blk"] obtain b where
    b: "vertexTet n vl i m (ts @ blk) = (ts @ blk) @ b" "length b = 4" by blast
  have "fold (vertexTet n vl i) [0..<Suc m] ts = ts @ (blk @ b)"
    by (simp add: blk(1) b(1))
  moreover have "length (blk @ b) = 4 * Suc m" using blk(2) b(2) by simp
  ultimately show ?case by blast
qed

lemma fold_vfaceTet_block:
  "\<exists>blk c'. fold (vfaceTet n vl i) [0..<m] (ts, c) = (ts @ blk, c') \<and> length blk = 4 * m"
proof (induction m)
  case 0 show ?case by simp
next
  case (Suc m)
  then obtain blk c' where blk: "fold (vfaceTet n vl i) [0..<m] (ts, c) = (ts @ blk, c')" "length blk = 4 * m"
    by blast
  from vfaceTet_block[of n vl i m "ts @ blk" c'] obtain b c'' where
    b: "vfaceTet n vl i m (ts @ blk, c') = ((ts @ blk) @ b, c'')" "length b = 4" by blast
  have "fold (vfaceTet n vl i) [0..<Suc m] (ts, c) = (ts @ (blk @ b), c'')"
    by (simp add: blk(1) b(1))
  moreover have "length (blk @ b) = 4 * Suc m" using blk(2) b(2) by simp
  ultimately show ?case by blast
qed

lemma vertexTet_snoc: "i < length vs \<Longrightarrow> vertexTet n (vs @ [v]) i = vertexTet n vs i"
  by (intro ext) (simp add: vertexTet_def nth_append)

lemma vfaceTet_snoc: "i < length vs \<Longrightarrow> vfaceTet n (vs @ [v]) i = vfaceTet n vs i"
  by (intro ext) (simp add: vfaceTet_def nth_append)

lemma fold_vertices_snoc:
  "fold (\<lambda>i. fold (vertexTet n (vs @ [v]) i) [0..<length (connectedTriangles ((vs @ [v]) ! i)) div 2])
        [0..<length (vs @ [v])] s
   = fold (vertexTet n (vs @ [v]) (length vs)) [0..<length (connectedTriangles v) div 2]
       (fold (\<lambda>i. fold (vertexTet n vs i) [0..<length (connectedTriangles (vs ! i)) div 2])
          [0..<length vs] s)"
proof -
  have "fold (\<lambda>i. fold (vertexTet n (vs @ [v]) i) [0..<length (connectedTriangles ((vs @ [v]) ! i)) div 2])
          [0..<length vs] s
      = fold (\<lambda>i. fold (vertexTet n vs i) [0..<length (connectedTriangles (vs ! i)) div 2])
          [0..<length vs] s"
    by (rule fold_cong) (simp_all add: vertexTet_snoc nth_append)
  then show ?thesis by simp
qed

lemma fold_vfaces_snoc:
  "fold (\<lambda>i. fold (vfaceTet n (vs @ [v]) i) [0..<length (connectedTriangles ((vs @ [v]) ! i)) div 2])
        [0..<length (vs @ [v])] s
   = fold (vfaceTet n (vs @ [v]) (length vs)) [0..<length (connectedTriangles v) div 2]
       (fold (\<lambda>i. fold (vfaceTet n vs i) [0..<length (connectedTriangles (vs ! i)) div 2])
          [0..<length vs] s)"
proof -
  have "fold (\<lambda>i. fold (vfaceTet n (vs @ [v]) i) [0..<length (connectedTriangles ((vs @ [v]) ! i)) div 2])
          [0..<length vs] s
      = fold (\<lambda>i. fold (vfaceTet n vs i) [0..<length (connectedTriangles (vs ! i)) div 2])
          [0..<length vs] s"
    by (rule fold_cong) (simp_all add: vfaceTet_snoc nth_append)
  then show ?thesis by simp
qed

text \<open>
  C9, as amended. In per-vertex and vface modes a vertex contributes one tetrahedron
  for each neighbour pair of its fan: appending a vertex to the vertex list keeps the
  tetrahedra of the earlier vertices and adds a block of four entries for each of its
  pairs. A fan with fewer than two entries adds nothing; a fan with one pair adds one
  tetrahedron.
\<close>

theorem makeTetList_vertex_contribution:
  assumes "tetMode = TM_VERTEX \<or> tetMode = TM_VFACE"
  shows "\<exists>tetList dim blk dim'.
           makeTetList tetMode numPts faceList edgeList vertexList = Some (tetList, dim)
         \<and> makeTetList tetMode numPts faceList edgeList (vertexList @ [v]) = Some (tetList @ blk, dim')
         \<and> length blk = 4 * (length (connectedTriangles v) div 2)"
proof -
  from assms show ?thesis
  proof
    assume m: "tetMode = TM_VERTEX"
    let ?ts = "fold (\<lambda>i. fold (vertexTet numPts vertexList i)
                  [0..<length (connectedTriangles (vertexList ! i)) div 2]) [0..<length vertexList] []"
    from fold_vertexTet_block[of numPts "vertexList @ [v]" "length vertexList"
        "length (connectedTriangles v) div 2" ?ts]
    obtain blk where blk: "fold (vertexTet numPts (vertexList @ [v]) (length vertexList))
        [0..<length (connectedTriangles v) div 2] ?ts = ?ts @ blk"
      "length blk = 4 * (length (connectedTriangles v) div 2)" by blast
    have a: "makeTetList tetMode numPts faceList edgeList vertexList
               = Some (?ts, add32 numPts (int (length vertexList)))"
      unfolding m by (simp add: makeTetList_def TM_defs)
    have b: "makeTetList tetMode numPts faceList edgeList (vertexList @ [v])
               = Some (?ts @ blk, add32 numPts (int (length (vertexList @ [v]))))"
      unfolding m makeTetList_def fold_vertices_snoc blk(1) by (simp add: TM_defs)
    from a b blk(2) show ?thesis by blast
  next
    assume m: "tetMode = TM_VFACE"
    let ?s = "fold (\<lambda>i. fold (vfaceTet numPts vertexList i)
                  [0..<length (connectedTriangles (vertexList ! i)) div 2]) [0..<length vertexList] ([], 0)"
    from fold_vfaceTet_block[of numPts "vertexList @ [v]" "length vertexList"
        "length (connectedTriangles v) div 2" "fst ?s" "snd ?s"]
    obtain blk c' where blk: "fold (vfaceTet numPts (vertexList @ [v]) (length vertexList))
        [0..<length (connectedTriangles v) div 2] ?s = (fst ?s @ blk, c')"
      "length blk = 4 * (length (connectedTriangles v) div 2)" by auto
    have a: "makeTetList tetMode numPts faceList edgeList vertexList
               = Some (fst ?s, add32 numPts (int (length (fst ?s) div 4)))"
      unfolding m by (simp add: makeTetList_def TM_defs Let_def)
    have b: "makeTetList tetMode numPts faceList edgeList (vertexList @ [v])
               = Some (fst ?s @ blk, add32 numPts (int (length (fst ?s @ blk) div 4)))"
      unfolding m makeTetList_def fold_vfaces_snoc blk(1) by (simp add: TM_defs Let_def)
    from a b blk(2) show ?thesis by blast
  qed
qed

theorem makeTetList_vertex_contribution_witness:
  "(TM_VFACE = TM_VERTEX \<or> TM_VFACE = TM_VFACE) \<and>
   (\<exists>tetList dim blk dim'.
           makeTetList TM_VFACE 3 [] [] [] = Some (tetList, dim)
         \<and> makeTetList TM_VFACE 3 [] [] ([] @ [oneWedge]) = Some (tetList @ blk, dim')
         \<and> length blk = 4 * (length (connectedTriangles oneWedge) div 2))"
proof -
  have m: "TM_VFACE = TM_VERTEX \<or> TM_VFACE = TM_VFACE" by simp
  from makeTetList_vertex_contribution[OF m, of 3 "[]" "[]" "[]" oneWedge] m show ?thesis
    by blast
qed

theorem one_pair_fan_counterexample:
  "length (connectedTriangles oneWedge) div 2 = 1
   \<and> makeTetList TM_VERTEX 3 [] [] [oneWedge] = Some ([0, 1, 2, 3], 4)
   \<and> makeTetList TM_VFACE 3 [] [] [oneWedge] = Some ([0, 1, 2, 3], 4)"
  by (simp add: makeTetList_def TM_defs oneWedge_def vertexTet_def vfaceTet_def Let_def
      add32_def wrap32_def)


section \<open>Properties of makeAdjacencyList\<close>

lemma for_each_upt_invariant:
  assumes "for_each body [0..<k] s = Some s'" "I 0 s"
    and "\<And>j t t'. j < k \<Longrightarrow> I j t \<Longrightarrow> body j t = Some t' \<Longrightarrow> I (Suc j) t'"
  shows "I k s'"
  using assms
proof (induction k arbitrary: s')
  case 0 then show ?case by simp
next
  case (Suc k)
  from Suc.prems(1) obtain t where t: "for_each body [0..<k] s = Some t" "body k t = Some s'"
    by (auto simp: for_each_append split: option.splits)
  have "I k t" using t(1) Suc.prems(2,3) by (intro Suc.IH) auto
  with t(2) Suc.prems(3) show ?case by blast
qed

lemma for_each_invariant:
  assumes "for_each body xs s = Some s'" "I s"
    and "\<And>x t t'. x \<in> set xs \<Longrightarrow> I t \<Longrightarrow> body x t = Some t' \<Longrightarrow> I t'"
  shows "I s'"
  using assms
proof (induction xs arbitrary: s)
  case Nil then show ?case by simp
next
  case (Cons x xs)
  from Cons.prems(1) obtain t where t: "body x s = Some t" "for_each body xs t = Some s'"
    by (auto split: option.splits)
  have "I t" using Cons.prems(3)[of x s t] Cons.prems(2) t(1) by simp
  show ?case
  proof (rule Cons.IH[OF t(2) \<open>I t\<close>])
    fix y u u' assume "y \<in> set xs" "I u" "body y u = Some u'"
    then show "I u'" using Cons.prems(3)[of y u u'] by simp
  qed
qed

lemma two_push_count:
  fixes c2 c1 c0 :: nat and x :: nat and a b y :: int
  assumes e2: "c2 = c1 + (if int x = b then count_list [a] y else 0)"
      and e1: "c1 = c0 + (if int x = a then count_list [b] y else 0)"
  shows "c2 = c0 + (if int x = a \<and> y = b then 1 else 0) + (if int x = b \<and> y = a then 1 else 0)"
  unfolding e2 e1 by (cases "int x = a"; cases "int x = b"; cases "y = a"; cases "y = b"; simp)

lemma link_skew_arith:
  fixes cxy cyx dxy dyx :: nat and x y :: nat and a b :: int
  assumes "cxy = dxy + (if int x = a \<and> int y = b then 1 else 0) + (if int x = b \<and> int y = a then 1 else 0)"
      and "cyx = dyx + (if int y = a \<and> int x = b then 1 else 0) + (if int y = b \<and> int x = a then 1 else 0)"
  shows "int cxy - int cyx = int dxy - int dyx"
  unfolding assms by (cases "int x = a"; cases "int x = b"; cases "int y = a"; cases "int y = b"; simp)

lemma push_adj_Some:
  assumes "push_adj adj a xs = Some adj'"
  shows "length adj' = length adj" "0 \<le> a" "a < int (length adj)"
    "\<And>x y. x < length adj \<Longrightarrow>
       count_list (adj' ! x) y = count_list (adj ! x) y + (if int x = a then count_list xs y else 0)"
    "\<And>x. x < length adj \<Longrightarrow> set (adj ! x) \<subseteq> set (adj' ! x)"
proof -
  from assms have r: "0 \<le> a" "a < int (length adj)" "adj' = adj[nat a := adj ! nat a @ xs]"
    by (simp_all add: push_adj_def split: if_splits)
  show "length adj' = length adj" "0 \<le> a" "a < int (length adj)" using r by simp_all
  show "count_list (adj' ! x) y = count_list (adj ! x) y + (if int x = a then count_list xs y else 0)"
    if "x < length adj" for x y
  proof (cases "x = nat a")
    case True with r that show ?thesis by simp
  next
    case False with r that show ?thesis by auto
  qed
  show "set (adj ! x) \<subseteq> set (adj' ! x)" if "x < length adj" for x
    using r that by (cases "x = nat a") auto
qed

lemma link_Some:
  assumes "link adj a b = Some adj'"
  shows "length adj' = length adj" "0 \<le> a" "a < int (length adj)" "0 \<le> b" "b < int (length adj)"
    "\<And>x y. x < length adj \<Longrightarrow>
       count_list (adj' ! x) y = count_list (adj ! x) y
          + (if int x = a \<and> y = b then 1 else 0) + (if int x = b \<and> y = a then 1 else 0)"
    "\<And>x. x < length adj \<Longrightarrow> set (adj ! x) \<subseteq> set (adj' ! x)"
proof -
  from assms obtain adj1 where 1: "push_adj adj a [b] = Some adj1" and 2: "push_adj adj1 b [a] = Some adj'"
    unfolding link_def by (cases "push_adj adj a [b]") simp_all
  note p1 = push_adj_Some[OF 1] and p2 = push_adj_Some[OF 2]
  show "length adj' = length adj" "0 \<le> a" "a < int (length adj)" "0 \<le> b" "b < int (length adj)"
    using p1(1,2,3) p2(1,2,3) by simp_all
  show "count_list (adj' ! x) y = count_list (adj ! x) y
          + (if int x = a \<and> y = b then 1 else 0) + (if int x = b \<and> y = a then 1 else 0)"
    if "x < length adj" for x y
  proof -
    have "x < length adj1" using that p1(1) by simp
    from p2(4)[OF this, of y] p1(4)[OF that, of y] show ?thesis by (rule two_push_count)
  qed
  show "set (adj ! x) \<subseteq> set (adj' ! x)" if "x < length adj" for x
  proof -
    have "x < length adj1" using that p1(1) by simp
    from p2(5)[OF this] p1(5)[OF that] show ?thesis by blast
  qed
qed

text \<open>The difference between the two directed counts is unchanged by a link.\<close>

lemma link_skew:
  assumes "link adj a b = Some adj'" "x < length adj" "y < length adj"
  shows "int (count_list (adj' ! x) (int y)) - int (count_list (adj' ! y) (int x))
       = int (count_list (adj ! x) (int y)) - int (count_list (adj ! y) (int x))"
  using link_Some(6)[OF assms(1,2), of "int y"] link_Some(6)[OF assms(1,3), of "int x"]
  by (rule link_skew_arith)

lemma link_symmetric:
  assumes "link adj a b = Some adj'" "symmetric_adj adj"
  shows "symmetric_adj adj'"
  unfolding symmetric_adj_def
proof (intro allI impI)
  fix x y assume "x < length adj'" "y < length adj'"
  then have xy: "x < length adj" "y < length adj" using link_Some(1)[OF assms(1)] by simp_all
  from assms(2) xy have "count_list (adj ! x) (int y) = count_list (adj ! y) (int x)"
    by (simp add: symmetric_adj_def)
  with link_skew[OF assms(1) xy] show "count_list (adj' ! x) (int y) = count_list (adj' ! y) (int x)"
    by simp
qed

lemma fan_step_arith:
  assumes "lo \<le> cur" "cur < hi"
  shows "ind lo cur hi x y - ind lo cur hi y x
           + (if x = cur \<and> lo \<le> y \<and> y < hi then 1 else 0)
           - (if y = cur \<and> lo \<le> x \<and> x < hi then 1 else 0)
         = ind lo (cur + 1) hi x y - ind lo (cur + 1) hi y x"
proof -
  consider "x < cur" | "x = cur" | "x > cur" by linarith
  then show ?thesis
  proof cases
    case 1
    consider "y < cur" | "y = cur" | "y > cur" by linarith
    then show ?thesis using 1 assms by cases (simp_all add: ind_def)
  next
    case 2
    consider "y < cur" | "y = cur" | "y > cur" by linarith
    then show ?thesis using 2 assms by cases (simp_all add: ind_def)
  next
    case 3
    consider "y < cur" | "y = cur" | "y > cur" by linarith
    then show ?thesis using 3 assms by cases (simp_all add: ind_def)
  qed
qed

lemma count_list_fan:
  "count_list (map (\<lambda>j. lo + int j) [0..<m]) y = (if lo \<le> y \<and> y < lo + int m then 1 else 0)"
  by (induction m) auto

lemma symmetric_adj_skew: "symmetric_adj adj \<longleftrightarrow> (\<forall>x < length adj. \<forall>y < length adj. skew adj x y = 0)"
  by (simp add: symmetric_adj_def skew_def)

lemma fanInv_start: "symmetric_adj adj \<Longrightarrow> fanInv adj lo lo hi"
  by (simp add: symmetric_adj_skew fanInv_def ind_def)

lemma fanInv_finish: "fanInv adj lo hi hi \<Longrightarrow> symmetric_adj adj"
  by (simp add: symmetric_adj_skew fanInv_def ind_def)

lemma push_skew:
  assumes "push_adj adj a xs = Some adj'" "x < length adj" "y < length adj"
  shows "skew adj' x y = skew adj x y + (if int x = a then int (count_list xs (int y)) else 0)
                           - (if int y = a then int (count_list xs (int x)) else 0)"
  unfolding skew_def
  using push_adj_Some(4)[OF assms(1,2), of "int y"] push_adj_Some(4)[OF assms(1,3), of "int x"]
  by simp

lemma link_skew': "link adj a b = Some adj' \<Longrightarrow> x < length adj \<Longrightarrow> y < length adj \<Longrightarrow> skew adj' x y = skew adj x y"
  unfolding skew_def by (rule link_skew)

lemma shareStep_Some:
  assumes "shareStep pa cur st = Some st'"
  shows "length (fst st') = length (fst st)"
    "\<And>x y. x < length (fst st) \<Longrightarrow> y < length (fst st) \<Longrightarrow> skew (fst st') x y = skew (fst st) x y"
    "\<And>x. x < length (fst st) \<Longrightarrow> set (fst st ! x) \<subseteq> set (fst st' ! x)"
proof -
  have "fst st' = fst st \<or> (\<exists>e. link (fst st) cur e = Some (fst st'))"
  proof (cases "snd st pa")
    case None with assms show ?thesis by (auto simp: shareStep_def)
  next
    case (Some e) with assms show ?thesis
      by (cases "link (fst st) cur e") (auto simp: shareStep_def)
  qed
  then consider "fst st' = fst st" | e where "link (fst st) cur e = Some (fst st')" by blast
  note c = this
  show "length (fst st') = length (fst st)"
    using c link_Some(1) by cases auto
  show "skew (fst st') x y = skew (fst st) x y" if "x < length (fst st)" "y < length (fst st)" for x y
    using c that link_skew' by cases auto
  show "set (fst st ! x) \<subseteq> set (fst st' ! x)" if "x < length (fst st)" for x
    using c
  proof cases
    case 1 then show ?thesis by simp
  next
    case 2 from link_Some(7)[OF 2 that] show ?thesis .
  qed
qed

lemma wedgeAdj_Some:
  assumes "wedgeAdj v adjl j st = Some st'"
  obtains adj1 st1 st2 where
    "push_adj (fst st) (snd (snd st)) adjl = Some adj1"
    "shareStep (index v, connectedTriangles v ! (2 * j)) (snd (snd st)) (adj1, fst (snd st)) = Some st1"
    "shareStep (connectedTriangles v ! (2 * j + 1), index v) (snd (snd st)) st1 = Some st2"
    "st' = (fst st2, snd st2, snd (snd st) + 1)"
  using assms unfolding wedgeAdj_def Let_def
  by (auto split: Option.bind_splits)

lemma wedgeAdj_fan:
  assumes w: "wedgeAdj v (map (\<lambda>j. lo + int j) [0..<m]) j st = Some st'"
    and inv: "fanInv (fst st) lo (snd (snd st)) (lo + int m)"
    and cur: "lo \<le> snd (snd st)" "snd (snd st) < lo + int m"
  shows "fanInv (fst st') lo (snd (snd st')) (lo + int m)" "length (fst st') = length (fst st)"
    "snd (snd st') = snd (snd st) + 1"
proof -
  let ?cur = "snd (snd st)" and ?hi = "lo + int m"
  from w obtain adj1 st1 st2 where
    1: "push_adj (fst st) ?cur (map (\<lambda>j. lo + int j) [0..<m]) = Some adj1" and
    2: "shareStep (index v, connectedTriangles v ! (2 * j)) ?cur (adj1, fst (snd st)) = Some st1" and
    3: "shareStep (connectedTriangles v ! (2 * j + 1), index v) ?cur st1 = Some st2" and
    4: "st' = (fst st2, snd st2, ?cur + 1)"
    by (rule wedgeAdj_Some)
  have l1: "length adj1 = length (fst st)" using push_adj_Some(1)[OF 1] .
  have l2: "length (fst st1) = length (fst st)" using shareStep_Some(1)[OF 2] l1 by simp
  have l3: "length (fst st2) = length (fst st)" using shareStep_Some(1)[OF 3] l2 by simp
  show "length (fst st') = length (fst st)" using 4 l3 by simp
  show "snd (snd st') = ?cur + 1" using 4 by simp
  show "fanInv (fst st') lo (snd (snd st')) ?hi"
    unfolding fanInv_def
  proof (intro allI impI)
    fix x y assume "x < length (fst st')" "y < length (fst st')"
    then have xy: "x < length (fst st)" "y < length (fst st)" using 4 l3 by simp_all
    have "skew (fst st') x y = skew (fst st2) x y" using 4 by simp
    also have "\<dots> = skew (fst st1) x y" using shareStep_Some(2)[OF 3] xy l2 by simp
    also have "\<dots> = skew adj1 x y" using shareStep_Some(2)[OF 2] xy l1 by simp
    also have "\<dots> = skew (fst st) x y
          + (if int x = ?cur \<and> lo \<le> int y \<and> int y < ?hi then 1 else 0)
          - (if int y = ?cur \<and> lo \<le> int x \<and> int x < ?hi then 1 else 0)"
      unfolding push_skew[OF 1 xy] count_list_fan by simp
    also have "skew (fst st) x y = ind lo ?cur ?hi (int x) (int y) - ind lo ?cur ?hi (int y) (int x)"
      using inv xy by (simp add: fanInv_def)
    also have "ind lo ?cur ?hi (int x) (int y) - ind lo ?cur ?hi (int y) (int x)
          + (if int x = ?cur \<and> lo \<le> int y \<and> int y < ?hi then 1 else 0)
          - (if int y = ?cur \<and> lo \<le> int x \<and> int x < ?hi then 1 else 0)
        = ind lo (?cur + 1) ?hi (int x) (int y) - ind lo (?cur + 1) ?hi (int y) (int x)"
      by (rule fan_step_arith[OF cur])
    finally show "skew (fst st') x y
        = ind lo (snd (snd st')) ?hi (int x) (int y) - ind lo (snd (snd st')) ?hi (int y) (int x)"
      using 4 by simp
  qed
qed

lemma vertexAdj_symmetric:
  assumes "vertexAdj vl i st = Some st'" "symmetric_adj (fst st)"
  shows "symmetric_adj (fst st')" "length (fst st') = length (fst st)"
proof -
  let ?m = "length (connectedTriangles (vl ! i)) div 2" and ?lo = "snd (snd st)"
  let ?adjl = "map (\<lambda>j. ?lo + int j) [0..<?m]"
  let ?I = "\<lambda>j t. snd (snd t) = ?lo + int j \<and> length (fst t) = length (fst st)
              \<and> fanInv (fst t) ?lo (snd (snd t)) (?lo + int ?m)"
  from assms(1) have run: "for_each (wedgeAdj (vl ! i) ?adjl) [0..<?m] st = Some st'"
    by (simp add: vertexAdj_def Let_def)
  have "?I ?m st'"
  proof (rule for_each_upt_invariant[where I = ?I, OF run])
    show "?I 0 st" using fanInv_start[OF assms(2)] by simp
  next
    fix j t t' assume j: "j < ?m" and I: "?I j t" and b: "wedgeAdj (vl ! i) ?adjl j t = Some t'"
    from I j have c: "?lo \<le> snd (snd t)" "snd (snd t) < ?lo + int ?m" by simp_all
    from I have f: "fanInv (fst t) ?lo (snd (snd t)) (?lo + int ?m)" by blast
    from wedgeAdj_fan[OF b f c] I show "?I (Suc j) t'" by simp
  qed
  then show "symmetric_adj (fst st')" "length (fst st') = length (fst st)"
    using fanInv_finish by auto
qed

lemma for_each_link_symmetric:
  assumes "for_each (\<lambda>x adj. link adj a x) xs adj = Some adj'" "symmetric_adj adj"
  shows "symmetric_adj adj' \<and> length adj' = length adj"
proof (rule for_each_invariant[where I = "\<lambda>t. symmetric_adj t \<and> length t = length adj", OF assms(1)])
  show "symmetric_adj adj \<and> length adj = length adj" using assms(2) by simp
next
  fix x t t' assume "symmetric_adj t \<and> length t = length adj" "link t a x = Some t'"
  then show "symmetric_adj t' \<and> length t' = length adj"
    using link_symmetric[of t a x t'] link_Some(1)[of t a x t'] by simp
qed

lemma edgeAdj_symmetric:
  assumes "edgeAdj el i st = Some st'" "symmetric_adj (fst st)"
  shows "symmetric_adj (fst st') \<and> length (fst st') = length (fst st)"
proof -
  let ?f0 = "fst (faces (el ! i))" and ?f1 = "snd (faces (el ! i))"
  from assms(1) obtain adj1 share0 adj2 share1 adj3 where
    1: "link (fst st) (2 * int i) (2 * int i + 1) = Some adj1" and
    2: "for_each (\<lambda>x adj. link adj (2 * int i) x) share0 adj1 = Some adj2" and
    3: "for_each (\<lambda>x adj. link adj (2 * int i + 1) x) share1 adj2 = Some adj3" and
    4: "fst st' = adj3"
    unfolding edgeAdj_def Let_def by (auto split: Option.bind_splits)
  have s1: "symmetric_adj adj1" "length adj1 = length (fst st)"
    using link_symmetric[OF 1 assms(2)] link_Some(1)[OF 1] by simp_all
  have s2: "symmetric_adj adj2" "length adj2 = length (fst st)"
    using for_each_link_symmetric[OF 2 s1(1)] s1(2) by simp_all
  have s3: "symmetric_adj adj3" "length adj3 = length (fst st)"
    using for_each_link_symmetric[OF 3 s2(1)] s2(2) by simp_all
  with 4 show ?thesis by simp
qed

lemma face_count_arith:
  fixes c2 c1 c0 n1 n2 :: nat and a :: nat and b :: int and p :: "int \<times> int"
  assumes "c2 = c1 + (if int a = fst p \<and> b = snd p then 1 else 0)
                   + (if int a = snd p \<and> b = fst p then 1 else 0)"
    and "c1 = c0 + n1 + n2"
  shows "c2 = c0 + (n1 + (if p = (int a, b) then 1 else 0)) + (n2 + (if p = (b, int a) then 1 else 0))"
  unfolding assms
  by (cases p; cases "int a = fst p"; cases "b = snd p"; cases "int a = snd p"; cases "b = fst p"; simp)

lemma faceAdj_count:
  assumes "for_each (faceAdj el) [0..<k] adj = Some adj'" "k \<le> length el"
  shows "length adj' = length adj \<and>
         (\<forall>a < length adj. \<forall>b.
            count_list (adj' ! a) b = count_list (adj ! a) b
              + length (filter (\<lambda>e. faces e = (int a, b)) (take k el))
              + length (filter (\<lambda>e. faces e = (b, int a)) (take k el)))"
  using assms
proof (induction k arbitrary: adj')
  case 0 then show ?case by simp
next
  case (Suc k)
  from Suc.prems(1) obtain t where t: "for_each (faceAdj el) [0..<k] adj = Some t" "faceAdj el k t = Some adj'"
    by (auto simp: for_each_append split: option.splits)
  from Suc.IH[OF t(1)] Suc.prems(2) have ih: "length t = length adj"
    "\<And>a b. a < length adj \<Longrightarrow> count_list (t ! a) b = count_list (adj ! a) b
              + length (filter (\<lambda>e. faces e = (int a, b)) (take k el))
              + length (filter (\<lambda>e. faces e = (b, int a)) (take k el))"
    by simp_all
  from t(2) have l: "link t (fst (faces (el ! k))) (snd (faces (el ! k))) = Some adj'"
    by (simp add: faceAdj_def)
  have tk: "take (Suc k) el = take k el @ [el ! k]"
    using Suc.prems(2) by (simp add: take_Suc_conv_app_nth)
  have "count_list (adj' ! a) b = count_list (adj ! a) b
              + length (filter (\<lambda>e. faces e = (int a, b)) (take (Suc k) el))
              + length (filter (\<lambda>e. faces e = (b, int a)) (take (Suc k) el))"
    if a: "a < length adj" for a b
  proof -
    have alt: "a < length t" using a ih(1) by simp
    have filt: "length (filter P (take (Suc k) el))
        = length (filter P (take k el)) + (if P (el ! k) then 1 else 0)" for P
      unfolding tk by simp
    from link_Some(6)[OF l alt, of b] ih(2)[OF a, of b] show ?thesis
      unfolding filt by (rule face_count_arith)
  qed
  then show ?case using link_Some(1)[OF l] ih(1) by simp
qed

lemma makeAdjacencyList_length_sym:
  assumes "makeAdjacencyList tetMode tetList edgeList vertexList = Some adj"
  shows "length adj = length tetList div 4 \<and> symmetric_adj adj"
proof -
  let ?adj0 = "replicate (length tetList div 4) ([] :: int list)"
  have s0: "symmetric_adj ?adj0" by (simp add: symmetric_adj_def)
  consider (face) "tetMode = TM_FACE" | (edge) "tetMode = TM_EDGE"
    | (vertex) "tetMode \<noteq> TM_FACE" "tetMode \<noteq> TM_EDGE" "tetMode = TM_VERTEX \<or> tetMode = TM_VFACE"
    | (other) "tetMode \<noteq> TM_FACE" "tetMode \<noteq> TM_EDGE" "tetMode \<noteq> TM_VERTEX" "tetMode \<noteq> TM_VFACE"
    by blast
  then show ?thesis
  proof cases
    case face
    with assms have run: "for_each (faceAdj edgeList) [0..<length edgeList] ?adj0 = Some adj"
      by (simp add: makeAdjacencyList_def)
    show ?thesis
    proof (rule for_each_invariant[where I = "\<lambda>t. length t = length tetList div 4 \<and> symmetric_adj t", OF run])
      show "length ?adj0 = length tetList div 4 \<and> symmetric_adj ?adj0" using s0 by simp
    next
      fix x t t' assume "length t = length tetList div 4 \<and> symmetric_adj t" "faceAdj edgeList x t = Some t'"
      then show "length t' = length tetList div 4 \<and> symmetric_adj t'"
        unfolding faceAdj_def using link_symmetric link_Some(1) by metis
    qed
  next
    case edge
    with assms obtain st where run: "for_each (edgeAdj edgeList) [0..<length edgeList]
        (?adj0, replicate (2 * length edgeList) []) = Some st" and st: "adj = fst st"
      by (auto simp: makeAdjacencyList_def TM_defs)
    have "length (fst st) = length tetList div 4 \<and> symmetric_adj (fst st)"
    proof (rule for_each_invariant[where I = "\<lambda>t. length (fst t) = length tetList div 4 \<and> symmetric_adj (fst t)", OF run])
      show "length (fst (?adj0, replicate (2 * length edgeList) ([]::int list))) = length tetList div 4
          \<and> symmetric_adj (fst (?adj0, replicate (2 * length edgeList) ([]::int list)))"
        using s0 by simp
    next
      fix x t t' assume "length (fst t) = length tetList div 4 \<and> symmetric_adj (fst t)"
        "edgeAdj edgeList x t = Some t'"
      then show "length (fst t') = length tetList div 4 \<and> symmetric_adj (fst t')"
        using edgeAdj_symmetric[of edgeList x t t'] by simp
    qed
    with st show ?thesis by simp
  next
    case vertex
    with assms obtain st where run: "for_each (vertexAdj vertexList) [0..<length vertexList]
        (?adj0, Map.empty, 0) = Some st" and st: "adj = fst st"
      by (auto simp: makeAdjacencyList_def)
    have "length (fst st) = length tetList div 4 \<and> symmetric_adj (fst st)"
    proof (rule for_each_invariant[where I = "\<lambda>t. length (fst t) = length tetList div 4 \<and> symmetric_adj (fst t)", OF run])
      show "length (fst (?adj0, (Map.empty :: edge_map), 0::int)) = length tetList div 4
          \<and> symmetric_adj (fst (?adj0, (Map.empty :: edge_map), 0::int))"
        using s0 by simp
    next
      fix x t t' assume "length (fst t) = length tetList div 4 \<and> symmetric_adj (fst t)"
        "vertexAdj vertexList x t = Some t'"
      then show "length (fst t') = length tetList div 4 \<and> symmetric_adj (fst t')"
        using vertexAdj_symmetric[of vertexList x t t'] by simp
    qed
    with st show ?thesis by simp
  next
    case other
    with assms have "adj = ?adj0" by (simp add: makeAdjacencyList_def)
    with s0 show ?thesis by simp
  qed
qed

lemma for_each_upt_total:
  assumes "I 0 s"
    and "\<And>j t. j < k \<Longrightarrow> I j t \<Longrightarrow> \<exists>t'. body j t = Some t' \<and> I (Suc j) t'"
  shows "\<exists>s'. for_each body [0..<k] s = Some s' \<and> I k s'"
  using assms
proof (induction k)
  case 0 then show ?case by simp
next
  case (Suc k)
  have "\<exists>t. for_each body [0..<k] s = Some t \<and> I k t"
    using Suc.prems by (intro Suc.IH) auto
  then obtain t where t: "for_each body [0..<k] s = Some t" "I k t" by blast
  from Suc.prems(2)[of k t] t(2) obtain t' where "body k t = Some t'" "I (Suc k) t'" by auto
  with t(1) show ?case by (simp add: for_each_append)
qed

lemma push_adj_total:
  "0 \<le> a \<Longrightarrow> a < int (length adj) \<Longrightarrow> \<exists>adj'. push_adj adj a xs = Some adj'"
  by (simp add: push_adj_def)

lemma push_adj_mem: "push_adj adj a xs = Some adj' \<Longrightarrow> set xs \<subseteq> set (adj' ! nat a)"
  by (auto simp: push_adj_def split: if_splits)

lemma link_total:
  assumes "0 \<le> a" "a < int (length adj)" "0 \<le> b" "b < int (length adj)"
  shows "\<exists>adj'. link adj a b = Some adj'"
proof -
  from push_adj_total[OF assms(1,2)] obtain adj1 where 1: "push_adj adj a [b] = Some adj1" by blast
  have "length adj1 = length adj" using push_adj_Some(1)[OF 1] .
  with push_adj_total[of b adj1 "[a]"] assms(3,4) obtain adj2 where "push_adj adj1 b [a] = Some adj2"
    by auto
  with 1 show ?thesis by (simp add: link_def)
qed

lemma shareStep_total:
  assumes "0 \<le> cur" "cur < int (length (fst st))"
    and "\<forall>pa v. snd st pa = Some v \<longrightarrow> 0 \<le> v \<and> v \<le> cur"
  shows "\<exists>st'. shareStep pa' cur st = Some st' \<and> (\<forall>pa v. snd st' pa = Some v \<longrightarrow> 0 \<le> v \<and> v \<le> cur)"
proof (cases "snd st pa'")
  case None
  with assms show ?thesis by (simp add: shareStep_def)
next
  case (Some e)
  have "0 \<le> e" "e \<le> cur" using assms(3)[rule_format, of pa' e] Some by simp_all
  with assms(1,2) link_total[of cur "fst st" e] obtain adj' where "link (fst st) cur e = Some adj'"
    by auto
  with Some assms(3) show ?thesis by (simp add: shareStep_def)
qed

lemma wedgeAdj_total:
  assumes inv: "adjInv N st" and lt: "snd (snd st) < int N" and mem: "snd (snd st) \<in> set adjl"
  shows "\<exists>st'. wedgeAdj v adjl j st = Some st' \<and> adjInv N st' \<and> snd (snd st') = snd (snd st) + 1"
proof -
  let ?cur = "snd (snd st)"
  from inv have len: "length (fst st) = N" and c0: "0 \<le> ?cur"
    and vals: "\<forall>pa v. fst (snd st) pa = Some v \<longrightarrow> 0 \<le> v \<and> v < ?cur"
    and self: "\<forall>w. int w < ?cur \<longrightarrow> int w \<in> set (fst st ! w)"
    by (simp_all add: adjInv_def)
  from push_adj_total[of ?cur "fst st" adjl] c0 lt len
  obtain adj1 where 1: "push_adj (fst st) ?cur adjl = Some adj1" by auto
  note p1 = push_adj_Some[OF 1]
  have v1: "\<forall>pa v. snd (adj1, fst (snd st)) pa = Some v \<longrightarrow> 0 \<le> v \<and> v \<le> ?cur"
    using vals by fastforce
  have r1: "?cur < int (length (fst (adj1, fst (snd st))))" using lt len p1(1) by simp
  from shareStep_total[OF c0 r1 v1]
  obtain st1 where 2: "shareStep (index v, connectedTriangles v ! (2 * j)) ?cur (adj1, fst (snd st)) = Some st1"
    and v2: "\<forall>pa v. snd st1 pa = Some v \<longrightarrow> 0 \<le> v \<and> v \<le> ?cur" by blast
  note s2 = shareStep_Some[OF 2]
  have r2: "?cur < int (length (fst st1))" using s2(1) r1 by simp
  from shareStep_total[OF c0 r2 v2]
  obtain st2 where 3: "shareStep (connectedTriangles v ! (2 * j + 1), index v) ?cur st1 = Some st2"
    and v3: "\<forall>pa v. snd st2 pa = Some v \<longrightarrow> 0 \<le> v \<and> v \<le> ?cur" by blast
  note s3 = shareStep_Some[OF 3]
  let ?st' = "(fst st2, snd st2, ?cur + 1)"
  have run: "wedgeAdj v adjl j st = Some ?st'"
    using 1 2 3 by (simp add: wedgeAdj_def Let_def)
  have l': "length (fst st2) = N" using s3(1) s2(1) p1(1) len by simp
  have mono: "set (fst st ! w) \<subseteq> set (fst st2 ! w)" "set (adj1 ! w) \<subseteq> set (fst st2 ! w)" if "w < N" for w
  proof -
    have a: "set (fst st ! w) \<subseteq> set (adj1 ! w)" using p1(5)[of w] that len by simp
    have b: "set (adj1 ! w) \<subseteq> set (fst st1 ! w)" using s2(3)[of w] that len p1(1) by simp
    have c: "set (fst st1 ! w) \<subseteq> set (fst st2 ! w)" using s3(3)[of w] that len p1(1) s2(1) by simp
    from a b c show "set (fst st ! w) \<subseteq> set (fst st2 ! w)" "set (adj1 ! w) \<subseteq> set (fst st2 ! w)" by blast+
  qed
  have curmem: "?cur \<in> set (adj1 ! nat ?cur)"
    using push_adj_mem[OF 1] mem by blast
  have self': "int w \<in> set (fst st2 ! w)" if "int w < ?cur + 1" for w
  proof (cases "int w < ?cur")
    case True
    then have "w < N" using lt by simp
    with self True mono(1)[of w] show ?thesis by blast
  next
    case False
    with that have w: "int w = ?cur" by simp
    then have "w < N" "nat ?cur = w" using lt by auto
    with curmem mono(2)[of w] w show ?thesis by auto
  qed
  have "adjInv N ?st'"
    unfolding adjInv_def using l' c0 lt v3 self' by fastforce
  with run show ?thesis by simp
qed

lemma vertexAdj_total:
  assumes inv: "adjInv N st"
    and le: "snd (snd st) + int (length (connectedTriangles (vl ! i)) div 2) \<le> int N"
  shows "\<exists>st'. vertexAdj vl i st = Some st' \<and> adjInv N st'
           \<and> snd (snd st') = snd (snd st) + int (length (connectedTriangles (vl ! i)) div 2)"
proof -
  let ?m = "length (connectedTriangles (vl ! i)) div 2" and ?lo = "snd (snd st)"
  let ?adjl = "map (\<lambda>j. ?lo + int j) [0..<?m]"
  let ?I = "\<lambda>j t. adjInv N t \<and> snd (snd t) = ?lo + int j"
  have "\<exists>s'. for_each (wedgeAdj (vl ! i) ?adjl) [0..<?m] st = Some s' \<and> ?I ?m s'"
  proof (rule for_each_upt_total[where I = ?I])
    show "?I 0 st" using inv by simp
  next
    fix j t assume j: "j < ?m" and I: "?I j t"
    from I have a: "adjInv N t" and c: "snd (snd t) = ?lo + int j" by simp_all
    have lt: "snd (snd t) < int N" using c j le by simp
    have mem: "snd (snd t) \<in> set ?adjl" using c j by simp
    from wedgeAdj_total[OF a lt mem, of "vl ! i" j] obtain t' where
      t': "wedgeAdj (vl ! i) ?adjl j t = Some t'" "adjInv N t'" "snd (snd t') = snd (snd t) + 1"
      by blast
    have "snd (snd t') = ?lo + int (Suc j)" using t'(3) c by simp
    with t'(1,2) show "\<exists>t'. wedgeAdj (vl ! i) ?adjl j t = Some t' \<and> ?I (Suc j) t'" by blast
  qed
  then show ?thesis by (simp add: vertexAdj_def Let_def)
qed

lemma vertices_adj_total:
  assumes "wedgeCount vl \<le> N"
  shows "\<exists>st'. for_each (vertexAdj vl) [0..<length vl] (replicate N [], Map.empty, 0) = Some st'
           \<and> adjInv N st' \<and> snd (snd st') = int (wedgeCount vl)"
proof -
  let ?I = "\<lambda>k t. adjInv N t \<and> snd (snd t) = int (wedgeCount (take k vl))"
  have "\<exists>s'. for_each (vertexAdj vl) [0..<length vl] (replicate N [], Map.empty, 0) = Some s'
           \<and> ?I (length vl) s'"
  proof (rule for_each_upt_total[where I = ?I])
    show "?I 0 (replicate N [], Map.empty, 0)" by (simp add: adjInv_def wedgeCount_def)
  next
    fix k t assume k: "k < length vl" and I: "?I k t"
    from I have a: "adjInv N t" and c: "snd (snd t) = int (wedgeCount (take k vl))" by simp_all
    have w: "wedgeCount (take (Suc k) vl) = wedgeCount (take k vl) + length (connectedTriangles (vl ! k)) div 2"
      using k by (rule wedgeCount_take_Suc)
    have "wedgeCount (take (Suc k) vl) \<le> N"
      using wedgeCount_take_le[of "Suc k" vl] assms by simp
    then have le: "snd (snd t) + int (length (connectedTriangles (vl ! k)) div 2) \<le> int N"
      using c w by simp
    from vertexAdj_total[OF a le] obtain t' where
      t': "vertexAdj vl k t = Some t'" "adjInv N t'"
        "snd (snd t') = snd (snd t) + int (length (connectedTriangles (vl ! k)) div 2)"
      by blast
    have "snd (snd t') = int (wedgeCount (take (Suc k) vl))" using t'(3) c w by simp
    with t'(1,2) show "\<exists>t'. vertexAdj vl k t = Some t' \<and> ?I (Suc k) t'" by blast
  qed
  then show ?thesis by simp
qed

text \<open>
  C10. In per-vertex and vface modes, when the tetrahedron list has a slot for every wedge
  (as the list built by makeTetList has), makeAdjacencyList returns, and every wedge index
  occurs in its own adjacency list.
\<close>

theorem makeAdjacencyList_self_adjacent:
  assumes "tetMode = TM_VERTEX \<or> tetMode = TM_VFACE"
    and "wedgeCount vertexList \<le> length tetList div 4"
  shows "\<exists>adjacencyList. makeAdjacencyList tetMode tetList edgeList vertexList = Some adjacencyList
           \<and> length adjacencyList = length tetList div 4
           \<and> (\<forall>w < wedgeCount vertexList. int w \<in> set (adjacencyList ! w))"
proof -
  from vertices_adj_total[OF assms(2)] obtain st where
    st: "for_each (vertexAdj vertexList) [0..<length vertexList]
           (replicate (length tetList div 4) [], Map.empty, 0) = Some st"
      "adjInv (length tetList div 4) st" "snd (snd st) = int (wedgeCount vertexList)"
    by blast
  have m: "tetMode \<noteq> TM_FACE" "tetMode \<noteq> TM_EDGE" using assms(1) by (auto simp: TM_defs)
  have "makeAdjacencyList tetMode tetList edgeList vertexList = Some (fst st)"
    using m assms(1) st(1) by (simp add: makeAdjacencyList_def)
  moreover have "length (fst st) = length tetList div 4" using st(2) by (simp add: adjInv_def)
  moreover have "\<forall>w < wedgeCount vertexList. int w \<in> set (fst st ! w)"
    using st(2,3) by (simp add: adjInv_def)
  ultimately show ?thesis by blast
qed

theorem makeAdjacencyList_self_adjacent_witness:
  "(TM_VERTEX = TM_VERTEX \<or> TM_VERTEX = TM_VFACE)
   \<and> wedgeCount dupFan \<le> length [0, 1, 2, 4, 0, 1, 3, 4 :: int] div 4
   \<and> (\<exists>adjacencyList. makeAdjacencyList TM_VERTEX [0, 1, 2, 4, 0, 1, 3, 4] [] dupFan = Some adjacencyList
           \<and> length adjacencyList = length [0, 1, 2, 4, 0, 1, 3, 4 :: int] div 4
           \<and> (\<forall>w < wedgeCount dupFan. int w \<in> set (adjacencyList ! w)))"
proof -
  have m: "TM_VERTEX = TM_VERTEX \<or> TM_VERTEX = TM_VFACE" by simp
  have w: "wedgeCount dupFan \<le> length [0, 1, 2, 4, 0, 1, 3, 4 :: int] div 4"
    by (simp add: wedgeCount_def dupFan_def)
  from makeAdjacencyList_self_adjacent[OF m w, of "[]"] m w show ?thesis by blast
qed

text \<open>
  Whenever makeAdjacencyList returns, in any mode, the adjacency list has one list for
  each tetrahedron and index b occurs in list a as often as a occurs in list b. In
  per-face mode the number of occurrences of b in list a is the number of edges whose
  face pair is (a, b) plus the number whose face pair is (b, a).
\<close>

lemma adjacency_symmetric_if_returned:
  assumes "makeAdjacencyList tetMode tetList edgeList vertexList = Some adjacencyList"
  shows "length adjacencyList = length tetList div 4
       \<and> (\<forall>a < length adjacencyList. \<forall>b < length adjacencyList.
             count_list (adjacencyList ! a) (int b) = count_list (adjacencyList ! b) (int a))
       \<and> (tetMode = TM_FACE \<longrightarrow>
            (\<forall>a < length adjacencyList. \<forall>b.
               count_list (adjacencyList ! a) b
                 = length (filter (\<lambda>e. faces e = (int a, b)) edgeList)
                 + length (filter (\<lambda>e. faces e = (b, int a)) edgeList)))"
proof -
  from makeAdjacencyList_length_sym[OF assms]
  have 1: "length adjacencyList = length tetList div 4" and 2: "symmetric_adj adjacencyList" by simp_all
  have 3: "count_list (adjacencyList ! a) b
                 = length (filter (\<lambda>e. faces e = (int a, b)) edgeList)
                 + length (filter (\<lambda>e. faces e = (b, int a)) edgeList)"
    if f: "tetMode = TM_FACE" and a: "a < length adjacencyList" for a b
  proof -
    from assms f have run: "for_each (faceAdj edgeList) [0..<length edgeList]
        (replicate (length tetList div 4) []) = Some adjacencyList"
      by (simp add: makeAdjacencyList_def)
    from faceAdj_count[OF run] a 1 show ?thesis by simp
  qed
  from 1 2 3 show ?thesis unfolding symmetric_adj_def by blast
qed

lemma adjacency_repeated_entries:
  "makeAdjacencyList TM_FACE [0, 1, 2, 4, 2, 1, 3, 5] dupEdges [] = Some [[1, 1], [0, 0]]"
  by code_simp

text \<open>
  C7. The claim is that in every mode makeAdjacencyList produces an adjacency list that is
  symmetric counting multiplicity. In per-edge mode the source gives \<^verbatim>\<open>faceShareList\<close> two
  slots for each edge but indexes it by face number. The face list \<open>openFaces\<close> has the
  three triangles (4,5,6), (0,1,2) and (2,1,3); its only interior edge joins faces 1 and 2.
  With the edge list and the tetrahedron list that the program builds from it, the face
  number 2 is outside the two slots of \<^verbatim>\<open>faceShareList\<close>: the call leaves the vector and
  produces no adjacency list.
\<close>

theorem makeAdjacencyList_share_overrun:
  "makeEdgeList openFaces = openEdges
   \<and> makeTetList TM_EDGE 7 openFaces openEdges [] = Some (openTets, 8)
   \<and> snd (faces (openEdges ! 0)) = 2
   \<and> 2 * length openEdges = 2
   \<and> makeAdjacencyList TM_EDGE openTets openEdges [] = None"
  by code_simp


section \<open>Properties of makeEdgeList\<close>

lemma edgeStep_sight:
  "edgeStep faceList i j st
     = sight (canon (faceList ! (3 * i + j)) (faceList ! (3 * i + ((j + 1) mod 3))), int i) st"
  by (simp add: edgeStep_def sight_def Let_def split: option.split)

lemma inner_loop_sights:
  "fold (edgeStep faceList i) [0..<3] st
     = fold sight (map (\<lambda>pa. (pa, int i)) (triPairs faceList i)) st"
proof -
  have "[0..<3] = [0, 1, 2::nat]" by (simp add: upt_rec)
  then show ?thesis by (simp add: edgeStep_sight triPairs_def)
qed

lemma makeEdgeList_slots: "makeEdgeList faceList = snd (fold sight (slots faceList) (Map.empty, []))"
proof -
  have "fold (\<lambda>i. fold (edgeStep faceList i) [0..<3]) xs st
      = fold sight (concat (map (\<lambda>i. map (\<lambda>pa. (pa, int i)) (triPairs faceList i)) xs)) st" for xs st
    by (induction xs arbitrary: st) (simp_all add: inner_loop_sights)
  then show ?thesis by (simp add: makeEdgeList_def slots_def)
qed

lemma fold_sight_emitted: "snd (fold sight ss (m, out)) = out @ emitted ss m"
proof (induction ss arbitrary: m out)
  case Nil show ?case by simp
next
  case (Cons s ss)
  have step: "snd (fold sight (s # ss) (m, out)) = snd (fold sight ss (sight s (m, out)))" by simp
  show ?case
  proof (cases "m (fst s)")
    case None
    then have eq: "sight s (m, out) = (m(fst s \<mapsto> snd s), out)" by (simp add: sight_def)
    have em: "emitted (s # ss) m = emitted ss (m(fst s \<mapsto> snd s))" using None by simp
    show ?thesis unfolding step eq em by (rule Cons.IH)
  next
    case (Some f)
    then have eq: "sight s (m, out) = (m, out @ [\<lparr>vertices = fst s, faces = (f, snd s)\<rparr>])"
      by (simp add: sight_def)
    have em: "emitted (s # ss) m = \<lparr>vertices = fst s, faces = (f, snd s)\<rparr> # emitted ss m"
      using Some by simp
    show ?thesis unfolding step eq em Cons.IH by simp
  qed
qed

lemma makeEdgeList_emitted: "makeEdgeList faceList = emitted (slots faceList) Map.empty"
  by (simp add: makeEdgeList_slots fold_sight_emitted)

lemma emitted_seen:
  "m pa = Some f \<Longrightarrow>
   filter (\<lambda>e. vertices e = pa) (emitted ss m)
     = map (\<lambda>g. \<lparr>vertices = pa, faces = (f, g)\<rparr>) (map snd (filter (\<lambda>s. fst s = pa) ss))"
proof (induction ss arbitrary: m)
  case Nil show ?case by simp
next
  case (Cons s ss)
  show ?case
  proof (cases "m (fst s)")
    case None
    with Cons.prems have ne: "fst s \<noteq> pa" by auto
    with Cons.prems have up: "(m(fst s \<mapsto> snd s)) pa = Some f" by simp
    have em: "emitted (s # ss) m = emitted ss (m(fst s \<mapsto> snd s))" using None by simp
    have fl: "filter (\<lambda>s. fst s = pa) (s # ss) = filter (\<lambda>s. fst s = pa) ss" using ne by simp
    show ?thesis unfolding em fl by (rule Cons.IH[of "m(fst s \<mapsto> snd s)", OF up])
  next
    case (Some f')
    from Cons.IH[of m, OF Cons.prems] Some Cons.prems show ?thesis by auto
  qed
qed

lemma emitted_unseen:
  "m pa = None \<Longrightarrow>
   filter (\<lambda>e. vertices e = pa) (emitted ss m)
     = (case map snd (filter (\<lambda>s. fst s = pa) ss) of
          [] \<Rightarrow> []
        | f # gs \<Rightarrow> map (\<lambda>g. \<lparr>vertices = pa, faces = (f, g)\<rparr>) gs)"
proof (induction ss arbitrary: m)
  case Nil show ?case by simp
next
  case (Cons s ss)
  show ?case
  proof (cases "fst s = pa")
    case True
    with Cons.prems have "(m(fst s \<mapsto> snd s)) pa = Some (snd s)" by simp
    from emitted_seen[of "m(fst s \<mapsto> snd s)" pa "snd s" ss, OF this] True Cons.prems
    show ?thesis by simp
  next
    case False
    show ?thesis
    proof (cases "m (fst s)")
      case None
      from False Cons.prems have up: "(m(fst s \<mapsto> snd s)) pa = None" by simp
      have em: "emitted (s # ss) m = emitted ss (m(fst s \<mapsto> snd s))" using None by simp
      have fl: "filter (\<lambda>s. fst s = pa) (s # ss) = filter (\<lambda>s. fst s = pa) ss" using False by simp
      show ?thesis unfolding em fl by (rule Cons.IH[of "m(fst s \<mapsto> snd s)", OF up])
    next
      case (Some f')
      from Cons.IH[of m, OF Cons.prems] Some False show ?thesis by simp
    qed
  qed
qed

lemma canon_triple:
  assumes "a \<noteq> b" "a \<noteq> c" "b \<noteq> c"
  shows "distinct [canon a b, canon b c, canon c a]"
    "\<forall>pa \<in> set [canon a b, canon b c, canon c a]. fst pa < snd pa"
  using assms by (auto simp: canon_def)

lemma distinct_triPairs:
  assumes "properTris faceList" "i < length faceList div 3"
  shows "distinct (triPairs faceList i)" "\<forall>pa \<in> set (triPairs faceList i). fst pa < snd pa"
proof -
  from assms have d: "faceList ! (3 * i) \<noteq> faceList ! (3 * i + 1)"
    "faceList ! (3 * i) \<noteq> faceList ! (3 * i + 2)" "faceList ! (3 * i + 1) \<noteq> faceList ! (3 * i + 2)"
    by (simp_all add: properTris_def)
  show "distinct (triPairs faceList i)" "\<forall>pa \<in> set (triPairs faceList i). fst pa < snd pa"
    unfolding triPairs_def by (rule canon_triple[OF d])+
qed

lemma sightings_one:
  "distinct ps \<Longrightarrow>
   map snd (filter (\<lambda>s. fst s = pa) (map (\<lambda>p. (p, c)) ps)) = (if pa \<in> set ps then [c] else [])"
  by (induction ps) auto

lemma concat_if_filter:
  "concat (map (\<lambda>i. if Q i then [g i] else []) xs) = map g (filter Q xs)"
  by (induction xs) auto

lemma sightings_tris:
  assumes "properTris faceList"
  shows "map snd (filter (\<lambda>s. fst s = pa) (slots faceList)) = map int (trisWith faceList pa)"
proof -
  let ?n = "length faceList div 3"
  have "map snd (filter (\<lambda>s. fst s = pa) (slots faceList))
      = concat (map (\<lambda>i. map snd (filter (\<lambda>s. fst s = pa) (map (\<lambda>p. (p, int i)) (triPairs faceList i)))) [0..<?n])"
    unfolding slots_def by (simp add: filter_concat map_concat comp_def)
  also have "\<dots> = concat (map (\<lambda>i. if pa \<in> set (triPairs faceList i) then [int i] else []) [0..<?n])"
    by (intro arg_cong[where f = concat] map_cong refl sightings_one distinct_triPairs(1)[OF assms]) simp
  also have "\<dots> = map int (trisWith faceList pa)"
    unfolding trisWith_def by (rule concat_if_filter)
  finally show ?thesis .
qed

lemma makeEdgeList_per_pair:
  assumes "properTris faceList"
  shows "filter (\<lambda>e. vertices e = pa) (makeEdgeList faceList)
       = (case trisWith faceList pa of
            [] \<Rightarrow> []
          | f # gs \<Rightarrow> map (\<lambda>g. \<lparr>vertices = pa, faces = (int f, int g)\<rparr>) gs)"
  unfolding makeEdgeList_emitted
  using emitted_unseen[of Map.empty pa "slots faceList"] sightings_tris[OF assms, of pa]
  by (cases "trisWith faceList pa") (simp_all add: comp_def)

text \<open>
  C6, as amended. For every triangle list whose triangles have three different corners and
  in which no pair of points is a side of more than two triangles, makeEdgeList emits, for
  each pair that is a side of exactly two triangles f < g, exactly one edge, which records
  the faces f and g in this order; every emitted edge is such a pair (so a side of a
  single triangle is never emitted) and stores its smaller point index first.
\<close>

theorem makeEdgeList_interior_edges:
  assumes "manifold faceList" "properTris faceList"
  shows "(\<forall>pa f g. trisWith faceList pa = [f, g] \<longrightarrow>
            filter (\<lambda>e. vertices e = pa) (makeEdgeList faceList)
              = [\<lparr>vertices = pa, faces = (int f, int g)\<rparr>])
       \<and> (\<forall>e \<in> set (makeEdgeList faceList).
            length (trisWith faceList (vertices e)) = 2 \<and> fst (vertices e) < snd (vertices e))"
proof (intro conjI allI impI ballI)
  fix pa f g assume "trisWith faceList pa = [f, g]"
  then show "filter (\<lambda>e. vertices e = pa) (makeEdgeList faceList)
              = [\<lparr>vertices = pa, faces = (int f, int g)\<rparr>]"
    by (simp add: makeEdgeList_per_pair[OF assms(2)])
next
  fix e assume e: "e \<in> set (makeEdgeList faceList)"
  let ?pa = "vertices e"
  have "e \<in> set (filter (\<lambda>e'. vertices e' = ?pa) (makeEdgeList faceList))" using e by simp
  then obtain f g gs where t: "trisWith faceList ?pa = f # g # gs"
    unfolding makeEdgeList_per_pair[OF assms(2)]
    by (cases "trisWith faceList ?pa"; cases "tl (trisWith faceList ?pa)") auto
  then have "f \<in> set (trisWith faceList ?pa)" by simp
  then have f: "f < length faceList div 3" "?pa \<in> set (triPairs faceList f)"
    by (simp_all add: trisWith_def)
  then have "?pa \<in> set (allPairs faceList)" by (auto simp: allPairs_def)
  with assms(1) have "length (trisWith faceList ?pa) \<le> 2" by (simp add: manifold_def)
  with t show "length (trisWith faceList ?pa) = 2" by simp
  from distinct_triPairs(2)[OF assms(2) f(1)] f(2) show "fst ?pa < snd ?pa" by blast
qed

theorem makeEdgeList_interior_edges_witness:
  "manifold quadFaces \<and> properTris quadFaces
   \<and> trisWith quadFaces (1, 2) = [0, 1]
   \<and> filter (\<lambda>e. vertices e = (1, 2)) (makeEdgeList quadFaces)
         = [\<lparr>vertices = (1, 2), faces = (int 0, int 1)\<rparr>]
   \<and> makeEdgeList quadFaces = quadEdges
   \<and> length (trisWith quadFaces (vertices (hd quadEdges))) = 2
   \<and> fst (vertices (hd quadEdges)) < snd (vertices (hd quadEdges))"
proof -
  have m: "manifold quadFaces" by code_simp
  have p: "properTris quadFaces" by code_simp
  have r: "makeEdgeList quadFaces = quadEdges" by code_simp
  have t: "trisWith quadFaces (1, 2) = [0, 1]" by code_simp
  have h: "hd quadEdges \<in> set (makeEdgeList quadFaces)" unfolding r by (simp add: quadEdges_def)
  from makeEdgeList_interior_edges[OF m p] m p r t h show ?thesis by blast
qed

theorem makeEdgeList_degenerate_counterexample:
  "manifold degenerateTri
   \<and> trisWith degenerateTri (1, 2) = [0]
   \<and> makeEdgeList degenerateTri = [\<lparr>vertices = (1, 2), faces = (0, 0)\<rparr>]"
  by code_simp


section \<open>Properties of the distance primitives\<close>

lemma distPtLin_coincident_general:
  "distPtLin (vec px py pz) (vec ax ay az) (vec ax ay az) = NaN"
  by (simp add: distPtLin_def vec_def squaredNorm_def dsub_def Let_def)

text \<open>
  C5. distPtLin has no guard for coincident end points: for p = (1,0,0) and a = b = (0,0,0)
  it divides zero by zero and returns not-a-number instead of the squared distance 1
  to the point a.
\<close>

theorem distPtLin_coincident_endpoints:
  "distPtLin (vec 1 0 0) (vec 0 0 0) (vec 0 0 0) = NaN"
  by (simp add: distPtLin_def vec_def squaredNorm_def dsub_def Let_def)













section \<open>Properties of the weight transfer\<close>














section \<open>Properties of removeDegenerate\<close>

lemma goodM_good: "isGood goodM" "\<not> isGood flatM"
  by (simp_all add: isGood_def goodM_def flatM_def determinant_def det4_helper_def vec_def dsub_def
      EPSILON_def)

lemma for_each_snoc:
  "for_each body [0..<k] s = Some t \<Longrightarrow> body k t = Some t' \<Longrightarrow> for_each body [0..<Suc k] s = Some t'"
  by (simp add: for_each_append)

lemma for_each_goodEdge:
  assumes "2 * k \<le> length P"
  shows "for_each (goodEdge P) [0..<k] []
         = Some (filter (\<lambda>i. isGood (P ! (2 * i)) \<and> isGood (P ! (2 * i + 1))) [0..<k])"
  using assms
proof (induction k)
  case 0 show ?case by simp
next
  case (Suc k)
  let ?good = "\<lambda>i. isGood (P ! (2 * i)) \<and> isGood (P ! (2 * i + 1))"
  from Suc have ih: "for_each (goodEdge P) [0..<k] [] = Some (filter ?good [0..<k])" by simp
  have r: "elem_at P (2 * int k) = Some (P ! (2 * k))" "elem_at P (2 * int k + 1) = Some (P ! (2 * k + 1))"
    using Suc.prems by (simp_all add: elem_at_def nat_add_distrib nat_mult_distrib)
  have step: "goodEdge P k (filter ?good [0..<k]) = Some (filter ?good [0..<Suc k])"
    by (simp add: goodEdge_def r)
  show ?case by (rule for_each_snoc[OF ih step])
qed

lemma for_each_goodWedge:
  assumes "0 \<le> cur" "nat cur + m \<le> length P"
  shows "for_each (goodWedge P) [0..<m] (g, cur)
         = Some (g \<and> (\<forall>j < m. isGood (P ! (nat cur + j))), cur + int m)"
  using assms(2)
proof (induction m)
  case 0 show ?case by simp
next
  case (Suc m)
  then have ih: "for_each (goodWedge P) [0..<m] (g, cur)
         = Some (g \<and> (\<forall>j < m. isGood (P ! (nat cur + j))), cur + int m)" by simp
  have r: "elem_at P (cur + int m) = Some (P ! (nat cur + m))"
    using Suc.prems assms(1) by (simp add: elem_at_def nat_add_distrib)
  have step: "goodWedge P m (g \<and> (\<forall>j < m. isGood (P ! (nat cur + j))), cur + int m)
      = Some (g \<and> (\<forall>j < Suc m. isGood (P ! (nat cur + j))), cur + int (Suc m))"
    by (auto simp: goodWedge_def r less_Suc_eq)
  show ?case by (rule for_each_snoc[OF ih step])
qed

lemma for_each_goodVertex:
  assumes "k \<le> length vl" "wedgeCount vl \<le> length P"
  shows "for_each (goodVertex P vl) [0..<k] ([], 0)
         = Some (filter (\<lambda>i. \<forall>j \<in> set [0..<length (connectedTriangles (vl ! i)) div 2].
                                 isGood (P ! (wedgeCount (take i vl) + j))) [0..<k],
                 int (wedgeCount (take k vl)))"
  using assms(1)
proof (induction k)
  case 0 show ?case by (simp add: wedgeCount_def)
next
  case (Suc k)
  let ?good = "\<lambda>i. \<forall>j \<in> set [0..<length (connectedTriangles (vl ! i)) div 2].
                                 isGood (P ! (wedgeCount (take i vl) + j))"
  let ?m = "length (connectedTriangles (vl ! k)) div 2"
  from Suc have ih: "for_each (goodVertex P vl) [0..<k] ([], 0)
         = Some (filter ?good [0..<k], int (wedgeCount (take k vl)))" by simp
  have w: "wedgeCount (take (Suc k) vl) = wedgeCount (take k vl) + ?m"
    using Suc.prems by (simp add: wedgeCount_take_Suc)
  have le: "nat (int (wedgeCount (take k vl))) + ?m \<le> length P"
    using wedgeCount_take_le[of "Suc k" vl] assms(2) w by simp
  have inner: "for_each (goodWedge P) [0..<?m] (True, int (wedgeCount (take k vl)))
      = Some (True \<and> (\<forall>j < ?m. isGood (P ! (nat (int (wedgeCount (take k vl))) + j))),
              int (wedgeCount (take k vl)) + int ?m)"
    by (rule for_each_goodWedge[OF _ le]) simp
  have step: "goodVertex P vl k (filter ?good [0..<k], int (wedgeCount (take k vl)))
      = Some (filter ?good [0..<Suc k], int (wedgeCount (take (Suc k) vl)))"
    unfolding goodVertex_def snd_conv fst_conv inner w by auto
  show ?case by (rule for_each_snoc[OF ih step])
qed

lemma keptEdges_subset: "set (keptEdges P edgeList) \<subseteq> set edgeList"
  by (auto simp: keptEdges_def)

text \<open>
  C2, as amended. The filter keeps an element only when it is fully non-degenerate. In
  per-edge mode the surviving edges are, in order, the edges both of whose tetrahedra have
  a frame determinant of absolute value above the threshold, so an edge is dropped as soon
  as one of its two tetrahedra is degenerate. In per-vertex and vface modes the surviving
  vertices are those all of whose wedges are non-degenerate, so a vertex is dropped as soon
  as one of its wedges is degenerate. (The frame list has a frame for every tetrahedron,
  and in per-edge mode the edges are well formed, so that the call returns.)
\<close>

theorem removeDegenerate_keeps_fully_good:
  assumes "tetMode = TM_EDGE \<or> tetMode = TM_VERTEX \<or> tetMode = TM_VFACE"
    and "tetMode = TM_EDGE \<longrightarrow>
           2 * length edgeList \<le> length P \<and> (\<forall>e \<in> set edgeList. edgeOK faceList e)"
    and "tetMode \<noteq> TM_EDGE \<longrightarrow> wedgeCount vertexList \<le> length P"
  shows "\<exists>r. removeDegenerate tetMode numPts tetList faceList edgeList vertexList P = Some r
           \<and> (tetMode = TM_EDGE \<longrightarrow> newEdgeList r = keptEdges P edgeList)
           \<and> (tetMode \<noteq> TM_EDGE \<longrightarrow> newVertexList r = keptVertices P vertexList)"
proof (cases "tetMode = TM_EDGE")
  case True
  with assms(2) have le: "2 * length edgeList \<le> length P" and ok: "\<forall>e \<in> set edgeList. edgeOK faceList e"
    by simp_all
  have ok': "\<forall>e \<in> set (keptEdges P edgeList). edgeOK faceList e"
    using ok keptEdges_subset by blast
  from makeTetList_edge_returns[OF ok', of numPts vertexList] obtain ts d where
    ts: "makeTetList TM_EDGE numPts faceList (keptEdges P edgeList) vertexList = Some (ts, d)"
    by blast
  have "removeDegenerate tetMode numPts tetList faceList edgeList vertexList P
      = Some \<lparr>newTetList = ts, newFaceList = faceList, newEdgeList = keptEdges P edgeList,
              newVertexList = vertexList, newDim = d\<rparr>"
    unfolding True removeDegenerate_def for_each_goodEdge[OF le] keptEdges_def[symmetric]
    using ts by (simp add: TM_defs keptEdges_def)
  with True show ?thesis by simp
next
  case False
  with assms(1) have m: "tetMode = TM_VERTEX \<or> tetMode = TM_VFACE" by simp
  from False assms(3) have le: "wedgeCount vertexList \<le> length P" by simp
  have ne: "tetMode \<noteq> TM_FACE" using m by (auto simp: TM_defs)
  from makeTetList_vertex_returns[OF m, of numPts faceList edgeList "keptVertices P vertexList"]
  obtain ts d where ts: "makeTetList tetMode numPts faceList edgeList (keptVertices P vertexList) = Some (ts, d)"
    by blast
  have "removeDegenerate tetMode numPts tetList faceList edgeList vertexList P
      = Some \<lparr>newTetList = ts, newFaceList = faceList, newEdgeList = edgeList,
              newVertexList = keptVertices P vertexList, newDim = d\<rparr>"
    unfolding removeDegenerate_def for_each_goodVertex[OF order_refl le]
    using ts False ne m by (simp add: keptVertices_def)
  with False show ?thesis by simp
qed

theorem removeDegenerate_keeps_fully_good_witness:
  "TM_EDGE = TM_EDGE
   \<and> 2 * length quadEdges \<le> length [goodM, flatM]
   \<and> wellFormed TM_EDGE quadFaces quadEdges
   \<and> (\<exists>r. removeDegenerate TM_EDGE 4 [1, 2, 0, 4, 2, 1, 3, 4] quadFaces quadEdges [] [goodM, flatM] = Some r
           \<and> newEdgeList r = keptEdges [goodM, flatM] quadEdges)
   \<and> keptEdges [goodM, flatM] quadEdges = []"
proof -
  have 1: "TM_EDGE = TM_EDGE \<or> TM_EDGE = TM_VERTEX \<or> TM_EDGE = TM_VFACE" by simp
  have l: "2 * length quadEdges \<le> length [goodM, flatM]" by (simp add: quadEdges_def)
  have 2: "TM_EDGE = TM_EDGE \<longrightarrow>
           2 * length quadEdges \<le> length [goodM, flatM] \<and> (\<forall>e \<in> set quadEdges. edgeOK quadFaces e)"
    using quad_wf l by (simp add: wellFormed_def)
  have 3: "TM_EDGE \<noteq> TM_EDGE \<longrightarrow> wedgeCount [] \<le> length [goodM, flatM]" by simp
  have 4: "keptEdges [goodM, flatM] quadEdges = []"
    using goodM_good by (simp add: keptEdges_def quadEdges_def)
  from removeDegenerate_keeps_fully_good[OF 1 2 3, where numPts = 4 and tetList = "[1, 2, 0, 4, 2, 1, 3, 4]"]
    l quad_wf 4
  show ?thesis by blast
qed

theorem removeDegenerate_partial_counterexample:
  "isGood goodM \<and> \<not> isGood flatM
   \<and> removeDegenerate TM_EDGE 4 [1, 2, 0, 4, 2, 1, 3, 4] quadFaces quadEdges [] [goodM, flatM]
       = Some \<lparr>newTetList = [], newFaceList = quadFaces, newEdgeList = [], newVertexList = [],
               newDim = 4\<rparr>"
proof -
  have e: "elem_at [goodM, flatM] 0 = Some goodM" "elem_at [goodM, flatM] 1 = Some flatM"
    by (simp_all add: elem_at_def)
  have "removeDegenerate TM_EDGE 4 [1, 2, 0, 4, 2, 1, 3, 4] quadFaces quadEdges [] [goodM, flatM]
       = Some \<lparr>newTetList = [], newFaceList = quadFaces, newEdgeList = [], newVertexList = [],
               newDim = 4\<rparr>"
    using goodM_good
    by (simp add: removeDegenerate_def goodEdge_def e quadEdges_def makeTetList_def TM_defs
        add32_def wrap32_def)
  with goodM_good show ?thesis by simp
qed


section \<open>Properties of tetMatrixNormalised\<close>











lemma elem_at_mem: "elem_at xs i = Some x \<Longrightarrow> x \<in> set xs"
  by (auto simp: elem_at_def split: if_splits)

lemma bindE:
  assumes "(x \<bind> f) = Some y"
  obtains a where "x = Some a" "f a = Some y"
  using assms by (cases x) simp_all




















end
